theory Spec2Isabelle
  imports Complex_Main "HOL-Library.Word" "HOL-Library.Multiset"
begin

section \<open>Entropy Visualizer: a shallow embedding of EntropyVisualizer.py\<close>

text \<open>
  The program reads a file, cuts it into blocks, computes the Shannon entropy of every
  block, maps the normalised entropy to an RGB colour, and optionally draws one square
  per block on a 400 x 800 canvas.

  Conventions of the embedding.
  \<^item> A Python \<^verbatim>\<open>int\<close> is an \<^typ>\<open>int\<close>; \<^verbatim>\<open>//\<close> and \<^verbatim>\<open>%\<close> are \<open>div\<close> and \<open>mod\<close>
    (both floor, as in Python).
  \<^item> A byte of a \<^verbatim>\<open>bytes\<close> object is an \<^typ>\<open>8 word\<close>.
  \<^item> A Python \<^verbatim>\<open>float\<close> is a \<^typ>\<open>real\<close> that went through a rounding: every
    floating-point operation returns the rounding of its exact result. The rounding and
    \<^verbatim>\<open>math.log2\<close> are parameters of the model (\<open>float_ops\<close>); what is assumed of them
    is written out in \<open>ieee\<close>. Two instances are given: \<open>exact\<close>, which does not round,
    and \<open>binary64\<close>, double precision in round-to-nearest. Comparisons, \<^verbatim>\<open>min\<close>,
    \<^verbatim>\<open>max\<close>, \<^verbatim>\<open>int\<close> and \<^verbatim>\<open>math.ceil\<close> are exact.
  \<^item> A raised exception is the \<open>Inl\<close> of a sum type.
\<close>

subsection \<open>Python primitives\<close>

text \<open>
  The exceptions that occur: the two raised by the arithmetic, and any other exception
  (one that a Pillow call raises) with its message.
\<close>

datatype py_error = ZeroDivisionError | ValueError | OtherError string

record float_ops =
  fl :: "real \<Rightarrow> real"
  flog2 :: "real \<Rightarrow> real"

text \<open>
  What the results below assume of double-precision arithmetic in round-to-nearest:
  rounding is monotone; a quarter of an integer of magnitude up to \<open>2^53\<close> is
  representable, so rounding leaves it alone; in the range from \<open>2^-60\<close> to \<open>2^60\<close> the
  relative error of a rounding is at most \<open>2^-53\<close>; and \<^verbatim>\<open>math.log2(1.0)\<close> is \<open>0.0\<close>.
\<close>

definition ieee :: "float_ops \<Rightarrow> bool" where
  "ieee fp \<longleftrightarrow>
     (\<forall>x y. x \<le> y \<longrightarrow> fl fp x \<le> fl fp y)
     \<and> (\<forall>k::int. \<bar>k\<bar> \<le> 2 ^ 53 \<longrightarrow> fl fp (real_of_int k / 4) = real_of_int k / 4)
     \<and> (\<forall>x. 1 / 2 ^ 60 \<le> \<bar>x\<bar> \<and> \<bar>x\<bar> \<le> 2 ^ 60 \<longrightarrow> \<bar>fl fp x - x\<bar> \<le> \<bar>x\<bar> / 2 ^ 53)
     \<and> flog2 fp 1 = 0"

text \<open>Arithmetic without rounding error: the instance used to evaluate examples.\<close>

definition exact :: float_ops where
  "exact = \<lparr>fl = (\<lambda>x. x), flog2 = log 2\<rparr>"

text \<open>
  Double precision itself, for the values that occur here (no overflow, no subnormal
  numbers): a nonzero real is rounded to the nearest multiple of \<open>2^(e - 52)\<close>, where
  \<open>2^e\<close> is the largest power of two not above its magnitude, ties going to the even
  multiple.
\<close>

definition rne :: "real \<Rightarrow> int" where
  "rne q =
     (let f = \<lfloor>q\<rfloor>; d = q - real_of_int f
      in if d < 1 / 2 then f else if 1 / 2 < d then f + 1 else if even f then f else f + 1)"

definition fl64 :: "real \<Rightarrow> real" where
  "fl64 x =
     (if x = 0 then 0
      else (let u = 2 powr (real_of_int \<lfloor>log 2 \<bar>x\<bar>\<rfloor> - 52) in real_of_int (rne (x / u)) * u))"

text \<open>
  \<^verbatim>\<open>math.log2\<close> is the C library's function. It is taken as the correctly rounded
  logarithm, except at the four arguments on which the examples below depend
  (\<^verbatim>\<open>1/11\<close>, \<^verbatim>\<open>11\<close>, \<^verbatim>\<open>1/3\<close> and \<^verbatim>\<open>1/6\<close> as doubles): there the value is the
  double that CPython returns (\<^verbatim>\<open>-3.4594316186372973\<close>, \<^verbatim>\<open>3.4594316186372973\<close>,
  \<^verbatim>\<open>-1.5849625007211563\<close>, \<^verbatim>\<open>-2.584962500721156\<close>), written as a fraction.
\<close>

definition log2_64 :: "real \<Rightarrow> real" where
  "log2_64 x =
     (if x = 3275345183542179 / 2 ^ 55 then - 3894973737152161 / 2 ^ 50
      else if x = 11 then 3894973737152161 / 2 ^ 50
      else if x = 6004799503160661 / 2 ^ 54 then - 7138036527644009 / 2 ^ 52
      else if x = 6004799503160661 / 2 ^ 55 then - 1455204519376813 / 2 ^ 49
      else fl64 (log 2 x))"

definition binary64 :: float_ops where
  "binary64 = \<lparr>fl = fl64, flog2 = log2_64\<rparr>"

definition fadd :: "float_ops \<Rightarrow> real \<Rightarrow> real \<Rightarrow> real" where
  "fadd fp a b = fl fp (a + b)"

definition fsub :: "float_ops \<Rightarrow> real \<Rightarrow> real \<Rightarrow> real" where
  "fsub fp a b = fl fp (a - b)"

definition fmul :: "float_ops \<Rightarrow> real \<Rightarrow> real \<Rightarrow> real" where
  "fmul fp a b = fl fp (a * b)"

text \<open>\<^verbatim>\<open>a / b\<close> on two floats raises on a zero divisor.\<close>

definition fdiv :: "float_ops \<Rightarrow> real \<Rightarrow> real \<Rightarrow> py_error + real" where
  "fdiv fp a b = (if b = 0 then Inl ZeroDivisionError else Inr (fl fp (a / b)))"

text \<open>\<^verbatim>\<open>a / b\<close> on two ints: the correctly rounded quotient, raising on a zero divisor.\<close>

definition truediv :: "float_ops \<Rightarrow> int \<Rightarrow> int \<Rightarrow> py_error + real" where
  "truediv fp a b =
     (if b = 0 then Inl ZeroDivisionError else Inr (fl fp (real_of_int a / real_of_int b)))"

text \<open>\<^verbatim>\<open>math.log2(x)\<close> raises a \<^verbatim>\<open>ValueError\<close> (math domain error) unless \<open>x > 0\<close>.\<close>

definition math_log2 :: "float_ops \<Rightarrow> real \<Rightarrow> py_error + real" where
  "math_log2 fp x = (if x \<le> 0 then Inl ValueError else Inr (flog2 fp x))"

text \<open>\<^verbatim>\<open>int(x)\<close> on a float truncates towards zero.\<close>

definition py_int :: "real \<Rightarrow> int" where
  "py_int x = (if 0 \<le> x then \<lfloor>x\<rfloor> else \<lceil>x\<rceil>)"

subsection \<open>Entropy calculator\<close>

type_synonym byte = "8 word"

text \<open>
  The dictionary \<^verbatim>\<open>freq\<close> keeps its keys in insertion order, and \<^verbatim>\<open>freq.values()\<close>
  is read in that order, so it is an association list:
  \<^verbatim>\<open>freq[b] = freq.get(b, 0) + 1\<close> updates an existing key in place and appends a new one.
\<close>

fun freq_get :: "(byte \<times> nat) list \<Rightarrow> byte \<Rightarrow> nat \<Rightarrow> nat" where
  "freq_get [] b d = d"
| "freq_get ((k, v) # kvs) b d = (if k = b then v else freq_get kvs b d)"

fun freq_set :: "(byte \<times> nat) list \<Rightarrow> byte \<Rightarrow> nat \<Rightarrow> (byte \<times> nat) list" where
  "freq_set [] b v = [(b, v)]"
| "freq_set ((k, w) # kvs) b v = (if k = b then (k, v) # kvs else (k, w) # freq_set kvs b v)"

fun count_bytes :: "(byte \<times> nat) list \<Rightarrow> byte list \<Rightarrow> (byte \<times> nat) list" where
  "count_bytes freq [] = freq"
| "count_bytes freq (b # block) = count_bytes (freq_set freq b (freq_get freq b 0 + 1)) block"

text \<open>
  The loop \<^verbatim>\<open>for count in freq.values()\<close> on the counts still to read (\<open>cnt\<close> is the
  loop variable \<^verbatim>\<open>count\<close>), with \<open>n\<close> the length of the block and \<open>ent\<close> the sum so far.
\<close>

fun accumulate :: "float_ops \<Rightarrow> nat \<Rightarrow> real \<Rightarrow> nat list \<Rightarrow> py_error + real" where
  "accumulate fp n ent [] = Inr ent"
| "accumulate fp n ent (cnt # counts) =
     (case truediv fp (int cnt) (int n) of
        Inl e \<Rightarrow> Inl e
      | Inr p \<Rightarrow>
          (case math_log2 fp p of
             Inl e \<Rightarrow> Inl e
           | Inr l \<Rightarrow> accumulate fp n (fsub fp ent (fmul fp p l)) counts))"

definition compute_entropy :: "float_ops \<Rightarrow> byte list \<Rightarrow> py_error + real" where
  "compute_entropy fp block =
     (if block = [] then Inr 0
      else accumulate fp (length block) 0 (map snd (count_bytes [] block)))"

text \<open>The argument of \<^verbatim>\<open>math.log2\<close> is a positive int here, so it does not raise.\<close>

definition max_entropy :: "float_ops \<Rightarrow> nat \<Rightarrow> real" where
  "max_entropy fp n = (if n = 0 then 0 else if n < 256 then flog2 fp (real n) else 8)"

subsection \<open>Colour gradient mapper\<close>

type_synonym color = "int \<times> int \<times> int"

definition anchors :: "(real \<times> color) list" where
  "anchors =
     [(0, (0, 0, 255)),
      (1 / 4, (0, 255, 255)),
      (1 / 2, (0, 255, 0)),
      (3 / 4, (255, 255, 0)),
      (1, (255, 0, 0))]"

definition clamp01 :: "real \<Rightarrow> real" where
  "clamp01 nrm = max 0 (min 1 nrm)"

text \<open>The three channels \<^verbatim>\<open>int(col0[k] + t * (col1[k] - col0[k]))\<close>.\<close>

definition channel :: "float_ops \<Rightarrow> real \<Rightarrow> int \<Rightarrow> int \<Rightarrow> int" where
  "channel fp t c0 c1 = py_int (fadd fp (real_of_int c0) (fmul fp t (real_of_int (c1 - c0))))"

definition lerp :: "float_ops \<Rightarrow> real \<Rightarrow> color \<Rightarrow> color \<Rightarrow> color" where
  "lerp fp t col0 col1 =
     (case col0 of (r0, g0, b0) \<Rightarrow> case col1 of (r1, g1, b1) \<Rightarrow>
        (channel fp t r0 r1, channel fp t g0 g1, channel fp t b0 b1))"

text \<open>
  The \<^verbatim>\<open>for i in range(len(anchors) - 1)\<close> loop, entered at index \<open>i\<close>, on the clamped
  value. \<open>Inr (Some c)\<close>: the loop returned \<open>c\<close> from its body; \<open>Inr None\<close>: the loop ran
  to its end without returning; \<open>Inl e\<close>: the body raised \<open>e\<close>.
\<close>

function interpolate :: "float_ops \<Rightarrow> real \<Rightarrow> nat \<Rightarrow> py_error + color option" where
  "interpolate fp nrm i =
     (if i < length anchors - 1 then
        (case anchors ! i of (x0, col0) \<Rightarrow> case anchors ! (i + 1) of (x1, col1) \<Rightarrow>
           if x0 \<le> nrm \<and> nrm \<le> x1
           then (case fdiv fp (fsub fp nrm x0) (fsub fp x1 x0) of
                   Inl e \<Rightarrow> Inl e
                 | Inr t \<Rightarrow> Inr (Some (lerp fp t col0 col1)))
           else interpolate fp nrm (i + 1))
      else Inr None)"
  by pat_completeness auto
termination
  by (relation "measure (\<lambda>(fp, nrm, i). length anchors - 1 - i)") auto

declare interpolate.simps [simp del]

definition entropy_to_color :: "float_ops \<Rightarrow> real \<Rightarrow> py_error + color" where
  "entropy_to_color fp nrm =
     (case interpolate fp (clamp01 nrm) 0 of
        Inl e \<Rightarrow> Inl e
      | Inr (Some c) \<Rightarrow> Inr c
      | Inr None \<Rightarrow> Inr (snd (last anchors)))"

subsection \<open>Normalisation and colour of one block (the loop body of \<^verbatim>\<open>main\<close>)\<close>

definition normalized :: "float_ops \<Rightarrow> byte list \<Rightarrow> py_error + real" where
  "normalized fp block =
     (case compute_entropy fp block of
        Inl e \<Rightarrow> Inl e
      | Inr ent \<Rightarrow>
          (let max_ent = max_entropy fp (length block)
           in if max_ent > 0 then fdiv fp ent max_ent else Inr 0))"

definition block_color :: "float_ops \<Rightarrow> byte list \<Rightarrow> py_error + color" where
  "block_color fp block =
     (case normalized fp block of
        Inl e \<Rightarrow> Inl e
      | Inr nrm \<Rightarrow> entropy_to_color fp nrm)"

text \<open>
  \<^verbatim>\<open>blocks = [data[i:i + bs] for i in range(0, len(data), bs)]\<close>: \<^verbatim>\<open>range\<close> raises
  on a zero step and is empty on a negative one.
\<close>

function chunks :: "nat \<Rightarrow> byte list \<Rightarrow> byte list list" where
  "chunks bs data =
     (if bs = 0 \<or> data = [] then [] else take bs data # chunks bs (drop bs data))"
  by pat_completeness auto
termination
  by (relation "measure (\<lambda>(bs, data). length data)") auto

declare chunks.simps [simp del]

definition blocks :: "byte list \<Rightarrow> int \<Rightarrow> py_error + byte list list" where
  "blocks data bs =
     (if bs = 0 then Inl ValueError
      else if bs < 0 then Inr []
      else Inr (chunks (nat bs) data))"

text \<open>The loop \<^verbatim>\<open>for block in blocks\<close> of \<^verbatim>\<open>main\<close>, as far as it fills \<^verbatim>\<open>color_list\<close>.\<close>

fun color_loop :: "float_ops \<Rightarrow> byte list list \<Rightarrow> color list \<Rightarrow> py_error + color list" where
  "color_loop fp [] color_list = Inr color_list"
| "color_loop fp (block # rest) color_list =
     (case block_color fp block of
        Inl e \<Rightarrow> Inl e
      | Inr col \<Rightarrow> color_loop fp rest (color_list @ [col]))"

definition color_list :: "float_ops \<Rightarrow> byte list \<Rightarrow> int \<Rightarrow> py_error + color list" where
  "color_list fp data bs =
     (case blocks data bs of
        Inl e \<Rightarrow> Inl e
      | Inr bl \<Rightarrow> color_loop fp bl [])"

subsection \<open>Grid layout and image renderer (\<^verbatim>\<open>create_image\<close>)\<close>

definition canvas_width :: int where
  "canvas_width = 400"

definition canvas_height :: int where
  "canvas_height = 800"

record geometry =
  best_cols :: int
  best_rows :: int
  max_square_size :: int

text \<open>
  The search loop \<^verbatim>\<open>for cols in range(1, n + 1)\<close>, on the column counts still to try
  and the best triple so far. Only a strictly larger square replaces the best.
\<close>

fun grid_search :: "float_ops \<Rightarrow> int \<Rightarrow> int list \<Rightarrow> geometry \<Rightarrow> py_error + geometry" where
  "grid_search fp n [] best = Inr best"
| "grid_search fp n (cols # rest) best =
     (case truediv fp n cols of
        Inl e \<Rightarrow> Inl e
      | Inr q \<Rightarrow>
          (let rows = \<lceil>q\<rceil> in
           (case truediv fp canvas_width cols of
              Inl e \<Rightarrow> Inl e
            | Inr w \<Rightarrow>
                (case truediv fp canvas_height rows of
                   Inl e \<Rightarrow> Inl e
                 | Inr h \<Rightarrow>
                     (let square_size = py_int (min w h) in
                      if square_size > max_square_size best
                      then grid_search fp n rest
                             \<lparr>best_cols = cols, best_rows = rows, max_square_size = square_size\<rparr>
                      else grid_search fp n rest best)))))"

text \<open>
  Lines 108 to 129 of \<^verbatim>\<open>create_image\<close>: the single column when its square is at least
  \<open>pixel_size\<close>, the search otherwise. \<open>n\<close> is \<^verbatim>\<open>len(colors)\<close>.
\<close>

definition grid_layout :: "float_ops \<Rightarrow> int \<Rightarrow> int \<Rightarrow> py_error + geometry" where
  "grid_layout fp n pixel_size =
     (case truediv fp canvas_height n of
        Inl e \<Rightarrow> Inl e
      | Inr h \<Rightarrow>
          (let vertical_square_size = py_int (min (real_of_int canvas_width) h) in
           if vertical_square_size \<ge> pixel_size
           then Inr \<lparr>best_cols = 1, best_rows = n, max_square_size = vertical_square_size\<rparr>
           else grid_search fp n [1..n] \<lparr>best_cols = 1, best_rows = 1, max_square_size = 0\<rparr>))"

definition left_margin :: "geometry \<Rightarrow> int" where
  "left_margin g = (canvas_width - best_cols g * max_square_size g) div 2"

definition top_margin :: "geometry \<Rightarrow> int" where
  "top_margin g = (canvas_height - best_rows g * max_square_size g) div 2"

text \<open>A drawn rectangle: the box \<open>[x0, y0, x1, y1]\<close> and its fill colour.\<close>

type_synonym rect = "(int \<times> int \<times> int \<times> int) \<times> color"

definition square :: "geometry \<Rightarrow> int \<Rightarrow> color \<Rightarrow> rect" where
  "square g i col =
     (let row = i div best_cols g;
          col_index = i mod best_cols g;
          x = left_margin g + col_index * max_square_size g;
          y = top_margin g + row * max_square_size g
      in ((x, y, x + max_square_size g - 1, y + max_square_size g - 1), col))"

text \<open>
  The Pillow module, as far as the renderer uses it. \<open>new_image\<close> is the creation of
  the 400 x 800 canvas (\<^verbatim>\<open>Image.new\<close>, the import of \<^verbatim>\<open>ImageDraw\<close> and
  \<^verbatim>\<open>ImageDraw.Draw\<close>): it succeeds (\<open>None\<close>) or raises (\<open>Some e\<close>). \<open>rectangle\<close> is
  \<^verbatim>\<open>draw.rectangle\<close> on a box and a fill colour: it draws or raises. \<open>save\<close> is
  \<^verbatim>\<open>img.save\<close> on a path: it writes the file (\<open>None\<close>) or raises an \<^verbatim>\<open>Exception\<close> with
  a message. Only the call of \<^verbatim>\<open>img.save\<close> is inside the \<^verbatim>\<open>try\<close>.
\<close>

record pillow =
  new_image :: "py_error option"
  rectangle :: "int \<times> int \<times> int \<times> int \<Rightarrow> color \<Rightarrow> py_error option"
  save :: "string \<Rightarrow> string option"

text \<open>
  \<^verbatim>\<open>draw.rectangle\<close> of Pillow 9.5 and later: a box whose second corner lies before
  its first (\<open>x1 < x0\<close> or \<open>y1 < y0\<close>) raises a \<^verbatim>\<open>ValueError\<close>.
\<close>

definition rejects_inverted :: "int \<times> int \<times> int \<times> int \<Rightarrow> color \<Rightarrow> py_error option" where
  "rejects_inverted box col =
     (case box of (x0, y0, x1, y1) \<Rightarrow> if x1 < x0 \<or> y1 < y0 then Some ValueError else None)"

text \<open>
  The drawing loop over \<^verbatim>\<open>enumerate(colors)\<close>, from index \<open>i\<close>, with the rectangles
  drawn so far. It is outside the \<^verbatim>\<open>try\<close>, so a raising \<^verbatim>\<open>draw.rectangle\<close> ends it.
\<close>

fun draw_squares ::
  "(int \<times> int \<times> int \<times> int \<Rightarrow> color \<Rightarrow> py_error option) \<Rightarrow> geometry \<Rightarrow> int \<Rightarrow> color list
     \<Rightarrow> rect list \<Rightarrow> py_error + rect list" where
  "draw_squares rect g i [] img = Inr img"
| "draw_squares rect g i (col # colors) img =
     (case rect (fst (square g i col)) col of
        Some e \<Rightarrow> Inl e
      | None \<Rightarrow> draw_squares rect g (i + 1) colors (img @ [square g i col]))"

text \<open>
  What the renderer touches outside itself: the lines printed so far and the image files
  written. The parameter \<open>image_lib\<close> of the model is \<open>None\<close> when the import of Pillow failed
  (\<^verbatim>\<open>Image = None\<close>).
\<close>

record world =
  stdout :: "string list"
  disk :: "(string \<times> rect list) list"

definition create_image ::
  "float_ops \<Rightarrow> pillow option \<Rightarrow> color list \<Rightarrow> int \<Rightarrow> string \<Rightarrow> world \<Rightarrow> py_error + world" where
  "create_image fp image_lib colors pixel_size output_file w =
     (case image_lib of
        None \<Rightarrow>
          Inr (w\<lparr>stdout := stdout w @
            [''Pillow is not installed. Please install it (pip install Pillow) to create images.'']\<rparr>)
      | Some pil \<Rightarrow>
          (case grid_layout fp (int (length colors)) pixel_size of
             Inl e \<Rightarrow> Inl e
           | Inr g \<Rightarrow>
               (case new_image pil of
                  Some e \<Rightarrow> Inl e
                | None \<Rightarrow>
                    (case draw_squares (rectangle pil) g 0 colors [] of
                       Inl e \<Rightarrow> Inl e
                     | Inr img \<Rightarrow>
                         (case save pil output_file of
                            None \<Rightarrow>
                              Inr (w\<lparr>stdout := stdout w @ [''Image saved to '' @ output_file],
                                     disk := disk w @ [(output_file, img)]\<rparr>)
                          | Some e \<Rightarrow>
                              Inr (w\<lparr>stdout := stdout w @ [''Error saving image: '' @ e]\<rparr>))))))"

subsection \<open>Properties stated in the words of the specification\<close>

text \<open>The distinct bytes of a block in the order in which they first occur.\<close>

fun first_seen :: "byte list \<Rightarrow> byte list" where
  "first_seen [] = []"
| "first_seen (b # block) = b # removeAll b (first_seen block)"

text \<open>\<^verbatim>\<open>math.log2\<close> is not positive on arguments between 0 and 1.\<close>

definition log2_sign :: "float_ops \<Rightarrow> bool" where
  "log2_sign fp \<longleftrightarrow> (\<forall>x. 0 < x \<and> x \<le> 1 \<longrightarrow> flog2 fp x \<le> 0)"

text \<open>A colour is a valid 8-bit RGB triple when each channel lies in 0..255.\<close>

definition valid_color :: "color \<Rightarrow> bool" where
  "valid_color c =
     (case c of (r, g, b) \<Rightarrow> 0 \<le> r \<and> r \<le> 255 \<and> 0 \<le> g \<and> g \<le> 255 \<and> 0 \<le> b \<and> b \<le> 255)"

text \<open>
  The interpolation parameter \<open>t\<close> that the loop body computes for a value \<open>nrm\<close> and the
  lower anchor position \<open>x0\<close> of its pair; adjacent anchors are a quarter apart.
\<close>

definition param :: "float_ops \<Rightarrow> real \<Rightarrow> real \<Rightarrow> real" where
  "param fp nrm x0 = fl fp (fsub fp nrm x0 / (1 / 4))"

text \<open>
  The layout in the specification's words, in exact arithmetic, for comparison with the
  code: the cell of the single column is \<open>floor(min(canvasWidth, canvasHeight / n))\<close>; a
  column count \<open>cols\<close> gives \<open>rows = ceil(n / cols)\<close> and the candidate cell
  \<open>floor(min(canvasWidth / cols, canvasHeight / rows))\<close>.
\<close>

definition spec_vertical :: "int \<Rightarrow> int" where
  "spec_vertical n =
     \<lfloor>min (real_of_int canvas_width) (real_of_int canvas_height / real_of_int n)\<rfloor>"

definition spec_rows :: "int \<Rightarrow> int \<Rightarrow> int" where
  "spec_rows n cols = \<lceil>real_of_int n / real_of_int cols\<rceil>"

definition spec_cell :: "int \<Rightarrow> int \<Rightarrow> int" where
  "spec_cell n cols =
     \<lfloor>min (real_of_int canvas_width / real_of_int cols)
          (real_of_int canvas_height / real_of_int (spec_rows n cols))\<rfloor>"

section \<open>Facts about the assumed floating-point arithmetic\<close>

lemma ieee_exact: "ieee exact"
  by (simp add: ieee_def exact_def)

lemma fl_mono: "ieee fp \<Longrightarrow> x \<le> y \<Longrightarrow> fl fp x \<le> fl fp y"
  by (simp add: ieee_def)

lemma fl_quarter: "ieee fp \<Longrightarrow> \<bar>k\<bar> \<le> 2 ^ 53 \<Longrightarrow> fl fp (real_of_int k / 4) = real_of_int k / 4"
  by (simp add: ieee_def)

lemma fl_int:
  assumes "ieee fp" "\<bar>k\<bar> \<le> 2 ^ 51"
  shows "fl fp (real_of_int k) = real_of_int k"
proof -
  have "\<bar>4 * k\<bar> \<le> 2 ^ 53" using assms(2) by simp
  from fl_quarter[OF assms(1) this] show ?thesis by simp
qed

lemma fl_rel:
  "ieee fp \<Longrightarrow> 1 / 2 ^ 60 \<le> \<bar>x\<bar> \<Longrightarrow> \<bar>x\<bar> \<le> 2 ^ 60 \<Longrightarrow> \<bar>fl fp x - x\<bar> \<le> \<bar>x\<bar> / 2 ^ 53"
  by (simp add: ieee_def)

lemma flog2_1: "ieee fp \<Longrightarrow> flog2 fp 1 = 0"
  by (simp add: ieee_def)

lemma fl_consts:
  assumes "ieee fp"
  shows "fl fp 0 = 0" "fl fp 1 = 1" "fl fp 255 = 255" "fl fp (- 255) = - 255"
    "fl fp (1 / 4) = 1 / 4"
  using fl_int[OF assms, of 0] fl_int[OF assms, of 1] fl_int[OF assms, of 255]
    fl_int[OF assms, of "- 255"] fl_quarter[OF assms, of 1]
  by simp_all

lemma fl_range:
  assumes "ieee fp" "real_of_int a \<le> x" "x \<le> real_of_int b" "\<bar>a\<bar> \<le> 2 ^ 51" "\<bar>b\<bar> \<le> 2 ^ 51"
  shows "real_of_int a \<le> fl fp x \<and> fl fp x \<le> real_of_int b"
  using fl_mono[OF assms(1,2)] fl_mono[OF assms(1,3)] fl_int[OF assms(1,4)] fl_int[OF assms(1,5)]
  by simp

lemma fl_exact: "fl exact x = x"
  by (simp add: exact_def)


subsection \<open>Rounded quotients of small integers truncate like the exact ones\<close>

lemma floor_min: "\<lfloor>min u v\<rfloor> = min \<lfloor>u\<rfloor> \<lfloor>v::real\<rfloor>"
  by (simp add: min_def floor_mono) (meson floor_mono le_cases order_antisym)

lemma quotient_gap:
  assumes "1 \<le> a" "a \<le> 2 ^ 20" "1 \<le> b"
  shows "(real_of_int a / real_of_int b) / 2 ^ 53 < 1 / real_of_int b"
proof -
  have "real_of_int a < 2 ^ 53"
  proof -
    have "a < 2 ^ 53" using assms(2) by simp
    then have "real_of_int a < real_of_int (2 ^ 53)" by (simp only: of_int_less_iff)
    then show ?thesis by simp
  qed
  then have "real_of_int a / 2 ^ 53 < 1" by simp
  moreover have "0 < real_of_int b" using assms(3) by simp
  ultimately have "(real_of_int a / 2 ^ 53) / real_of_int b < 1 / real_of_int b"
    by (rule divide_strict_right_mono)
  moreover have "(real_of_int a / real_of_int b) / 2 ^ 53 = (real_of_int a / 2 ^ 53) / real_of_int b"
    by simp
  ultimately show ?thesis by (simp only:)
qed

lemma quotient_split:
  assumes "1 \<le> b"
  shows "real_of_int a / real_of_int b =
     real_of_int (a div b) + real_of_int (a mod b) / real_of_int b"
proof -
  have "a = (a div b) * b + a mod b" by simp
  then have "real_of_int a = real_of_int (a div b) * real_of_int b + real_of_int (a mod b)"
    by (metis of_int_add of_int_mult)
  then show ?thesis using assms by (simp add: field_simps)
qed

lemma quotient_in_range:
  assumes "1 \<le> a" "a \<le> 2 ^ 20" "1 \<le> b" "b \<le> 2 ^ 20"
  shows "1 / 2 ^ 60 \<le> \<bar>real_of_int a / real_of_int b\<bar>" "\<bar>real_of_int a / real_of_int b\<bar> \<le> 2 ^ 60"
proof -
  have a: "1 \<le> real_of_int a" "real_of_int a \<le> 2 ^ 20"
    using assms(1,2) by (simp_all add: of_int_le_numeral_power_cancel_iff)
  have b: "1 \<le> real_of_int b" "real_of_int b \<le> 2 ^ 20"
    using assms(3,4) by (simp_all add: of_int_le_numeral_power_cancel_iff)
  have pos: "0 < real_of_int a / real_of_int b"
    using a(1) b(1) by simp
  have "1 / real_of_int b \<le> real_of_int a / real_of_int b"
    using a(1) b(1) by (simp add: divide_right_mono)
  moreover have "1 / 2 ^ 20 \<le> 1 / real_of_int b"
    using b by (simp add: field_simps)
  moreover have "(1::real) / 2 ^ 60 \<le> 1 / 2 ^ 20"
    by simp
  ultimately show "1 / 2 ^ 60 \<le> \<bar>real_of_int a / real_of_int b\<bar>"
    using pos by linarith
  have "real_of_int a / real_of_int b \<le> real_of_int a / 1"
    using a(1) b(1) by (intro divide_left_mono) simp_all
  moreover have "(2::real) ^ 20 \<le> 2 ^ 60"
    by simp
  ultimately show "\<bar>real_of_int a / real_of_int b\<bar> \<le> 2 ^ 60"
    using a(2) pos by linarith
qed

lemma fl_quotient_bounds:
  assumes "ieee fp" "1 \<le> a" "a \<le> 2 ^ 20" "1 \<le> b" "b \<le> 2 ^ 20"
  shows "real_of_int (a div b) \<le> fl fp (real_of_int a / real_of_int b)"
    and "fl fp (real_of_int a / real_of_int b) \<le> real_of_int (a div b) + 1"
    and "a mod b \<noteq> 0 \<Longrightarrow> real_of_int (a div b) < fl fp (real_of_int a / real_of_int b)"
    and "fl fp (real_of_int a / real_of_int b) < real_of_int (a div b) + 1"
    and "a mod b = 0 \<Longrightarrow> fl fp (real_of_int a / real_of_int b) = real_of_int (a div b)"
proof -
  let ?x = "real_of_int a / real_of_int b"
  let ?q = "a div b"
  let ?r = "a mod b"
  have bpos: "0 < real_of_int b" using assms(4) by simp
  have xpos: "0 < ?x" using assms(2,4) by simp
  have split: "?x = real_of_int ?q + real_of_int ?r / real_of_int b"
    using assms(4) by (rule quotient_split)
  have "0 < b" using assms(4) by simp
  then have r0: "0 \<le> ?r" and "?r < b"
    by (simp_all add: pos_mod_sign pos_mod_bound)
  then have rb: "?r \<le> b - 1" by simp
  have q0: "0 \<le> ?q" using assms(2,4) by (simp add: pos_imp_zdiv_nonneg_iff)
  have "real_of_int ?q \<le> ?x"
    using split r0 bpos by simp
  moreover have "?x \<le> real_of_int a / 1"
    using assms(2,4) by (intro divide_left_mono) simp_all
  ultimately have "real_of_int ?q \<le> real_of_int a" by simp
  then have qa: "?q \<le> a" by (simp only: of_int_le_iff)
  have qsmall: "\<bar>?q\<bar> \<le> 2 ^ 51" "\<bar>?q + 1\<bar> \<le> 2 ^ 51"
    using q0 qa assms(3) by simp_all
  have lo: "real_of_int ?q \<le> ?x"
    using split r0 bpos by simp
  have "real_of_int ?r \<le> real_of_int (b - 1)"
    using rb by (simp only: of_int_le_iff)
  then have "real_of_int ?r \<le> real_of_int b - 1"
    by simp
  then have "real_of_int ?r / real_of_int b \<le> (real_of_int b - 1) / real_of_int b"
    using bpos by (intro divide_right_mono) simp_all
  moreover have "(real_of_int b - 1) / real_of_int b = 1 - 1 / real_of_int b"
    using bpos by (simp add: diff_divide_distrib)
  ultimately have hi: "?x \<le> real_of_int ?q + 1 - 1 / real_of_int b"
    using split by linarith
  have binv: "0 < 1 / real_of_int b" using bpos by simp
  have "\<bar>fl fp ?x - ?x\<bar> \<le> \<bar>?x\<bar> / 2 ^ 53"
    using fl_rel[OF assms(1) quotient_in_range[OF assms(2-5)]] .
  moreover have "\<bar>?x\<bar> = ?x" using xpos by (rule abs_of_pos)
  ultimately have err: "fl fp ?x \<le> ?x + ?x / 2 ^ 53" "?x - ?x / 2 ^ 53 \<le> fl fp ?x"
    by (simp_all add: abs_le_iff) 
  have gap: "?x / 2 ^ 53 < 1 / real_of_int b"
    using quotient_gap[OF assms(2,3,4)] .
  show "real_of_int ?q \<le> fl fp ?x"
    using fl_mono[OF assms(1) lo] fl_int[OF assms(1) qsmall(1)] by simp
  have "?x \<le> real_of_int ?q + 1" using hi binv by linarith
  then have "?x \<le> real_of_int (?q + 1)" by simp
  from fl_mono[OF assms(1) this] fl_int[OF assms(1) qsmall(2)]
  show "fl fp ?x \<le> real_of_int ?q + 1" by simp
  show "fl fp ?x < real_of_int ?q + 1"
    using err(1) gap hi by linarith
  show "real_of_int ?q < fl fp ?x" if "?r \<noteq> 0"
  proof -
    have "1 \<le> ?r" using that r0 by simp
    then have "1 \<le> real_of_int ?r" by simp
    then have "1 / real_of_int b \<le> real_of_int ?r / real_of_int b"
      using bpos by (intro divide_right_mono) simp_all
    then have "real_of_int ?q + 1 / real_of_int b \<le> ?x"
      using split by linarith
    then show ?thesis
      using err(2) gap by linarith
  qed
  show "fl fp ?x = real_of_int ?q" if "?r = 0"
  proof -
    have "?x = real_of_int ?q" using split that by simp
    then show ?thesis using fl_int[OF assms(1) qsmall(1)] by simp
  qed
qed

lemma floor_fl_quotient:
  assumes "ieee fp" "1 \<le> a" "a \<le> 2 ^ 20" "1 \<le> b" "b \<le> 2 ^ 20"
  shows "\<lfloor>fl fp (real_of_int a / real_of_int b)\<rfloor> = a div b"
  using fl_quotient_bounds(1,4)[OF assms] by (simp add: floor_unique)

lemma ceiling_fl_quotient:
  assumes "ieee fp" "1 \<le> a" "a \<le> 2 ^ 20" "1 \<le> b" "b \<le> 2 ^ 20"
  shows "\<lceil>fl fp (real_of_int a / real_of_int b)\<rceil> = \<lceil>real_of_int a / real_of_int b\<rceil>"
proof (cases "a mod b = 0")
  case True
  have "real_of_int a / real_of_int b = real_of_int (a div b)"
    using quotient_split[OF assms(4), of a] True by simp
  then show ?thesis
    using fl_quotient_bounds(5)[OF assms True] by simp
next
  case False
  have "0 < b" using assms(4) by simp
  then have "0 \<le> a mod b" by (rule pos_mod_sign)
  then have r: "1 \<le> a mod b" using False by linarith
  have bpos: "0 < real_of_int b" using assms(4) by simp
  have "real_of_int (a div b) < real_of_int a / real_of_int b"
    using quotient_split[OF assms(4), of a] r bpos by simp
  moreover have "real_of_int a / real_of_int b \<le> real_of_int (a div b) + 1"
  proof -
    have "a mod b < b" using \<open>0 < b\<close> by (rule pos_mod_bound)
    then have "real_of_int (a mod b) \<le> real_of_int b" by simp
    then have "real_of_int (a mod b) / real_of_int b \<le> 1" using bpos by simp
    then show ?thesis using quotient_split[OF assms(4), of a] by simp
  qed
  ultimately have "\<lceil>real_of_int a / real_of_int b\<rceil> = a div b + 1"
    by (simp add: ceiling_unique)
  moreover have "\<lceil>fl fp (real_of_int a / real_of_int b)\<rceil> = a div b + 1"
    using fl_quotient_bounds(2,3)[OF assms] False by (simp add: ceiling_unique)
  ultimately show ?thesis by simp
qed

section \<open>The colour gradient mapper\<close>

subsection \<open>The loop, unfolded over the five anchors\<close>

lemma gap:
  assumes "ieee fp"
  shows "fsub fp (1 / 4) 0 = 1 / 4" "fsub fp (1 / 2) (1 / 4) = 1 / 4"
    "fsub fp (3 / 4) (1 / 2) = 1 / 4" "fsub fp 1 (3 / 4) = 1 / 4"
  using fl_consts(5)[OF assms] by (simp_all add: fsub_def)

lemma t_range:
  assumes "ieee fp" "x0 \<le> x" "x \<le> x0 + 1 / 4"
  shows "0 \<le> param fp x x0 \<and> param fp x x0 \<le> 1"
proof -
  have "0 \<le> fsub fp x x0" "fsub fp x x0 \<le> 1 / 4"
    using fl_mono[OF assms(1), of 0 "x - x0"] fl_mono[OF assms(1), of "x - x0" "1 / 4"]
      fl_consts[OF assms(1)] assms(2,3)
    by (simp_all add: fsub_def)
  then have "0 \<le> fsub fp x x0 / (1 / 4)" "fsub fp x x0 / (1 / 4) \<le> 1"
    by simp_all
  then show ?thesis
    using fl_mono[OF assms(1), of 0 "fsub fp x x0 / (1 / 4)"]
      fl_mono[OF assms(1), of "fsub fp x x0 / (1 / 4)" 1] fl_consts[OF assms(1)]
    by (simp add: param_def)
qed

lemma interpolate_4: "interpolate fp x (Suc (Suc (Suc (Suc 0)))) = Inr None"
  by (subst interpolate.simps) (simp add: anchors_def)

lemma interpolate_3:
  assumes "ieee fp"
  shows "interpolate fp x (Suc (Suc (Suc 0))) =
     (if 3 / 4 \<le> x \<and> x \<le> 1
      then Inr (Some (lerp fp (param fp x (3 / 4)) (255, 255, 0) (255, 0, 0)))
      else Inr None)"
  by (subst interpolate.simps) (simp add: anchors_def interpolate_4 gap[OF assms] fdiv_def param_def)

lemma interpolate_2:
  assumes "ieee fp"
  shows "interpolate fp x (Suc (Suc 0)) =
     (if 1 / 2 \<le> x \<and> x \<le> 3 / 4
      then Inr (Some (lerp fp (param fp x (1 / 2)) (0, 255, 0) (255, 255, 0)))
      else interpolate fp x (Suc (Suc (Suc 0))))"
  by (subst interpolate.simps) (simp add: anchors_def gap[OF assms] fdiv_def param_def)

lemma interpolate_1:
  assumes "ieee fp"
  shows "interpolate fp x (Suc 0) =
     (if 1 / 4 \<le> x \<and> x \<le> 1 / 2
      then Inr (Some (lerp fp (param fp x (1 / 4)) (0, 255, 255) (0, 255, 0)))
      else interpolate fp x (Suc (Suc 0)))"
  by (subst interpolate.simps) (simp add: anchors_def gap[OF assms] fdiv_def param_def)

lemma interpolate_0:
  assumes "ieee fp"
  shows "interpolate fp x 0 =
     (if 0 \<le> x \<and> x \<le> 1 / 4
      then Inr (Some (lerp fp (param fp x 0) (0, 0, 255) (0, 255, 255)))
      else interpolate fp x (Suc 0))"
  by (subst interpolate.simps) (simp add: anchors_def gap[OF assms] fdiv_def param_def)

lemmas interpolate_unfold = interpolate_0 interpolate_1 interpolate_2 interpolate_3

lemma clamp01_range: "0 \<le> clamp01 x \<and> clamp01 x \<le> 1"
  by (simp add: clamp01_def)

lemma clamp01_idem: "clamp01 (clamp01 x) = clamp01 x"
  by (simp add: clamp01_def)

lemma interpolate_in_loop:
  assumes "ieee fp" "0 \<le> x" "x \<le> 1"
  shows "\<exists>c. interpolate fp x 0 = Inr (Some c)"
proof -
  consider (a) "x \<le> 1 / 4" | (b) "1 / 4 < x" "x \<le> 1 / 2" | (c) "1 / 2 < x" "x \<le> 3 / 4"
    | (d) "3 / 4 < x"
    by linarith
  then show ?thesis
  proof cases
    case a
    then have "interpolate fp x 0 =
        Inr (Some (lerp fp (param fp x 0) (0, 0, 255) (0, 255, 255)))"
      using assms(2) by (simp add: interpolate_unfold[OF assms(1)])
    then show ?thesis by blast
  next
    case b
    then have "interpolate fp x 0 =
        Inr (Some (lerp fp (param fp x (1 / 4)) (0, 255, 255) (0, 255, 0)))"
      by (simp add: interpolate_unfold[OF assms(1)])
    then show ?thesis by blast
  next
    case c
    then have "interpolate fp x 0 =
        Inr (Some (lerp fp (param fp x (1 / 2)) (0, 255, 0) (255, 255, 0)))"
      by (simp add: interpolate_unfold[OF assms(1)])
    then show ?thesis by blast
  next
    case d
    then have "interpolate fp x 0 =
        Inr (Some (lerp fp (param fp x (3 / 4)) (255, 255, 0) (255, 0, 0)))"
      using assms(3) by (simp add: interpolate_unfold[OF assms(1)])
    then show ?thesis by blast
  qed
qed

lemma py_int_bounds: "0 \<le> y \<Longrightarrow> y \<le> 255 \<Longrightarrow> 0 \<le> py_int y \<and> py_int y \<le> 255"
  by (simp add: py_int_def floor_le_iff)

lemma channel_range:
  assumes "ieee fp" "0 \<le> t" "t \<le> 1" "c0 \<in> {0, 255}" "c1 \<in> {0, 255}"
  shows "0 \<le> channel fp t c0 c1 \<and> channel fp t c0 c1 \<le> 255"
proof -
  consider (same) "c1 = c0" | (up) "c0 = 0" "c1 = 255" | (down) "c0 = 255" "c1 = 0"
    using assms(4,5) by auto
  then have "0 \<le> fadd fp (real_of_int c0) (fmul fp t (real_of_int (c1 - c0)))
      \<and> fadd fp (real_of_int c0) (fmul fp t (real_of_int (c1 - c0))) \<le> 255"
  proof cases
    case same
    then show ?thesis
      using assms(4) fl_consts[OF assms(1)] by (auto simp: fadd_def fmul_def)
  next
    case up
    have "0 \<le> t * 255" "t * 255 \<le> 255" using assms(2,3) by simp_all
    then have "0 \<le> fl fp (t * 255) \<and> fl fp (t * 255) \<le> 255"
      using fl_range[OF assms(1), of 0 "t * 255" 255] by simp
    then have "0 \<le> fl fp (0 + fl fp (t * 255)) \<and> fl fp (0 + fl fp (t * 255)) \<le> 255"
      using fl_range[OF assms(1), of 0 "0 + fl fp (t * 255)" 255] by simp
    then show ?thesis using up by (simp add: fadd_def fmul_def)
  next
    case down
    have "- 255 \<le> t * (- 255)" "t * (- 255) \<le> 0" using assms(2,3) by simp_all
    then have "- 255 \<le> fl fp (t * (- 255)) \<and> fl fp (t * (- 255)) \<le> 0"
      using fl_range[OF assms(1), of "- 255" "t * (- 255)" 0] by simp
    then have "0 \<le> fl fp (255 + fl fp (t * (- 255))) \<and> fl fp (255 + fl fp (t * (- 255))) \<le> 255"
      using fl_range[OF assms(1), of 0 "255 + fl fp (t * (- 255))" 255] by simp
    then show ?thesis using down by (simp add: fadd_def fmul_def)
  qed
  then show ?thesis
    unfolding channel_def by (simp add: py_int_bounds)
qed

lemma channel_0:
  assumes "ieee fp" "c0 \<in> {0, 255}"
  shows "channel fp 0 c0 c1 = c0"
  using assms(2) fl_consts[OF assms(1)] by (auto simp: channel_def fadd_def fmul_def py_int_def)

lemma channel_1:
  assumes "ieee fp" "c0 \<in> {0, 255}" "c1 \<in> {0, 255}"
  shows "channel fp 1 c0 c1 = c1"
  using assms(2,3) fl_consts[OF assms(1)] by (auto simp: channel_def fadd_def fmul_def py_int_def)

lemma lerp_valid:
  assumes "ieee fp" "0 \<le> t \<and> t \<le> 1"
    and "r0 \<in> {0, 255}" "r1 \<in> {0, 255}" "g0 \<in> {0, 255}" "g1 \<in> {0, 255}"
      "b0 \<in> {0, 255}" "b1 \<in> {0, 255}"
  shows "valid_color (lerp fp t (r0, g0, b0) (r1, g1, b1))"
  using channel_range[OF assms(1) _ _ assms(3,4), of t]
    channel_range[OF assms(1) _ _ assms(5,6), of t]
    channel_range[OF assms(1) _ _ assms(7,8), of t] assms(2)
  by (simp add: valid_color_def lerp_def)

lemma interpolate_valid:
  assumes "ieee fp" "interpolate fp x 0 = Inr (Some c)"
  shows "valid_color c"
  using assms(2)
  by (auto simp: interpolate_unfold[OF assms(1)] split: if_splits
      intro!: lerp_valid[OF assms(1)] t_range[OF assms(1)])

lemma t_at_0: "ieee fp \<Longrightarrow> param fp x x = 0"
  by (simp add: param_def fsub_def fl_consts)

lemma t_at_1:
  assumes "ieee fp" "x - x0 = 1 / 4"
  shows "param fp x x0 = 1"
proof -
  have "fsub fp x x0 = 1 / 4"
    unfolding fsub_def assms(2) by (rule fl_consts(5)[OF assms(1)])
  then show ?thesis
    by (simp add: param_def fl_consts(2)[OF assms(1)])
qed

lemma entropy_to_color_0:
  assumes "ieee fp"
  shows "entropy_to_color fp 0 = Inr (0, 0, 255)"
  by (simp add: entropy_to_color_def clamp01_def interpolate_0[OF assms] t_at_0[OF assms]
      lerp_def channel_0[OF assms])

lemma entropy_to_color_quarter:
  assumes "ieee fp"
  shows "entropy_to_color fp (1 / 4) = Inr (0, 255, 255)"
  by (simp add: entropy_to_color_def clamp01_def interpolate_0[OF assms] t_at_1[OF assms]
      lerp_def channel_1[OF assms])

lemma entropy_to_color_half:
  assumes "ieee fp"
  shows "entropy_to_color fp (1 / 2) = Inr (0, 255, 0)"
  by (simp add: entropy_to_color_def clamp01_def interpolate_unfold[OF assms] t_at_1[OF assms]
      lerp_def channel_1[OF assms])

lemma entropy_to_color_three_quarters:
  assumes "ieee fp"
  shows "entropy_to_color fp (3 / 4) = Inr (255, 255, 0)"
  by (simp add: entropy_to_color_def clamp01_def interpolate_unfold[OF assms] t_at_1[OF assms]
      lerp_def channel_1[OF assms])

lemma entropy_to_color_1:
  assumes "ieee fp"
  shows "entropy_to_color fp 1 = Inr (255, 0, 0)"
  by (simp add: entropy_to_color_def clamp01_def interpolate_unfold[OF assms] t_at_1[OF assms]
      lerp_def channel_1[OF assms])

lemma color_at_3_10: "entropy_to_color exact (3 / 10) = Inr (0, 255, 204)"
  by (simp add: entropy_to_color_def clamp01_def interpolate_unfold[OF ieee_exact] param_def
      fsub_def fadd_def fmul_def lerp_def channel_def py_int_def fl_exact)

subsection \<open>Claims about the colour mapper\<close>

text \<open>
  C5. The mapper returns exactly the anchor colours at the five anchor positions:
  blue at 0, cyan at 1/4, green at 1/2, yellow at 3/4 and red at 1. For every \<open>x\<close>
  outside the interval from 0 to 1 the clamp pins \<open>x\<close> to the nearest bound (0 below,
  1 above) and the colour of \<open>x\<close> is the colour of the clamped value.
\<close>

theorem anchor_colors:
  assumes "ieee fp"
  shows "entropy_to_color fp 0 = Inr (0, 0, 255)
   \<and> entropy_to_color fp (1 / 4) = Inr (0, 255, 255)
   \<and> entropy_to_color fp (1 / 2) = Inr (0, 255, 0)
   \<and> entropy_to_color fp (3 / 4) = Inr (255, 255, 0)
   \<and> entropy_to_color fp 1 = Inr (255, 0, 0)
   \<and> (x < 0 \<or> 1 < x \<longrightarrow>
        clamp01 x = (if x < 0 then 0 else 1)
        \<and> entropy_to_color fp x = entropy_to_color fp (clamp01 x))"
proof -
  have "entropy_to_color fp x = entropy_to_color fp (clamp01 x)"
    by (simp add: entropy_to_color_def clamp01_idem)
  moreover have "x < 0 \<or> 1 < x \<longrightarrow> clamp01 x = (if x < 0 then 0 else 1)"
    by (auto simp: clamp01_def)
  ultimately show ?thesis
    using entropy_to_color_0[OF assms] entropy_to_color_quarter[OF assms]
      entropy_to_color_half[OF assms] entropy_to_color_three_quarters[OF assms]
      entropy_to_color_1[OF assms]
    by simp
qed

theorem anchor_colors_witness:
  "ieee exact \<and> entropy_to_color exact (- 5) = Inr (0, 0, 255)
   \<and> entropy_to_color exact 7 = Inr (255, 0, 0)"
  using anchor_colors [OF ieee_exact, of "- 5"] anchor_colors [OF ieee_exact, of 7] ieee_exact
  by simp

text \<open>
  C6. After the clamp, the loop always finds an adjacent anchor pair that brackets the
  value: for every input the loop returns a colour from its body, which is the result of
  the function, and the final \<^verbatim>\<open>return anchors[-1][1]\<close> is never reached.
\<close>

theorem fallback_unreachable:
  assumes "ieee fp"
  shows "\<exists>c. interpolate fp (clamp01 x) 0 = Inr (Some c) \<and> entropy_to_color fp x = Inr c"
proof -
  obtain c where c: "interpolate fp (clamp01 x) 0 = Inr (Some c)"
    using interpolate_in_loop [OF assms, of "clamp01 x"] clamp01_range [of x] by blast
  then have "entropy_to_color fp x = Inr c"
    by (simp add: entropy_to_color_def)
  with c show ?thesis by blast
qed

theorem fallback_unreachable_witness:
  "ieee exact \<and> interpolate exact (clamp01 (- 3)) 0 = Inr (Some (0, 0, 255))
   \<and> interpolate exact (clamp01 9) 0 = Inr (Some (255, 0, 0))"
proof -
  have "entropy_to_color exact (- 3) = Inr (0, 0, 255)"
    "entropy_to_color exact 9 = Inr (255, 0, 0)"
    using entropy_to_color_0[OF ieee_exact] entropy_to_color_1[OF ieee_exact]
    by (simp_all add: entropy_to_color_def clamp01_def)
  then show ?thesis
    using fallback_unreachable [OF ieee_exact, of "- 3"]
      fallback_unreachable [OF ieee_exact, of 9] ieee_exact
    by auto
qed

text \<open>
  C10. For every real input, also far outside the interval from 0 to 1, the mapper
  returns a triple of integers each between 0 and 255.
\<close>

theorem entropy_to_color_valid:
  assumes "ieee fp"
  shows "\<exists>c. entropy_to_color fp x = Inr c \<and> valid_color c"
proof -
  obtain c where c: "interpolate fp (clamp01 x) 0 = Inr (Some c)"
    using interpolate_in_loop [OF assms, of "clamp01 x"] clamp01_range [of x] by blast
  then have "entropy_to_color fp x = Inr c"
    by (simp add: entropy_to_color_def)
  then show ?thesis
    using interpolate_valid [OF assms c] by simp
qed

theorem entropy_to_color_valid_witness:
  "ieee exact \<and> entropy_to_color exact (3 / 10) = Inr (0, 255, 204) \<and> valid_color (0, 255, 204)"
  using entropy_to_color_valid [OF ieee_exact, of "3 / 10"] color_at_3_10 ieee_exact
  by simp

section \<open>The entropy calculator and the normalisation\<close>

text \<open>
  C4. \<open>max_entropy n\<close> is 0 when \<open>n = 0\<close>, what \<^verbatim>\<open>math.log2\<close> returns on \<open>n\<close> when
  \<open>0 < n < 256\<close>, and 8 when \<open>n \<ge> 256\<close>; in particular it is \<open>log2 255\<close> at 255 and 8
  at 256 and at 1000.
\<close>

theorem max_entropy_cases:
  "(n = 0 \<longrightarrow> max_entropy fp n = 0)
   \<and> (0 < n \<and> n < 256 \<longrightarrow> max_entropy fp n = flog2 fp (real n))
   \<and> (256 \<le> n \<longrightarrow> max_entropy fp n = 8)
   \<and> max_entropy fp 0 = 0
   \<and> max_entropy fp 255 = flog2 fp 255
   \<and> max_entropy fp 256 = 8
   \<and> max_entropy fp 1000 = 8"
  by (simp add: max_entropy_def)

theorem max_entropy_cases_witness:
  "max_entropy exact 0 = 0 \<and> max_entropy exact 2 = 1 \<and> max_entropy exact 255 = log 2 255
   \<and> max_entropy exact 300 = 8"
  using max_entropy_cases [of 0 exact] max_entropy_cases [of 2 exact]
    max_entropy_cases [of 300 exact]
  by (simp add: exact_def)

lemma compute_entropy_single:
  assumes "ieee fp"
  shows "compute_entropy fp [b] = Inr 0"
  using fl_consts[OF assms] flog2_1[OF assms]
  by (simp add: compute_entropy_def truediv_def math_log2_def fsub_def fmul_def)

text \<open>
  C8. For every block of exactly one byte, whatever the byte, the maximum entropy is
  \<open>log2 1 = 0\<close>, so the guard \<^verbatim>\<open>max_ent > 0\<close> fails, the normalised entropy is 0 and the
  colour is blue (0, 0, 255).
\<close>

theorem single_byte_block:
  assumes "ieee fp" "length block = 1"
  shows "max_entropy fp (length block) = 0 \<and> normalized fp block = Inr 0
    \<and> block_color fp block = Inr (0, 0, 255)"
proof -
  obtain b where b: "block = [b]"
    using assms(2) by (cases block) simp_all
  have m: "max_entropy fp (length block) = 0"
    using assms(2) flog2_1[OF assms(1)] by (simp add: max_entropy_def)
  then have "normalized fp block = Inr 0"
    using compute_entropy_single[OF assms(1)] b by (simp add: normalized_def Let_def)
  then show ?thesis
    using m by (simp add: block_color_def entropy_to_color_0[OF assms(1)])
qed

theorem single_byte_block_witness:
  "ieee exact \<and> length [0xE9 :: byte] = 1 \<and> normalized exact [0xE9] = Inr 0
   \<and> block_color exact [0xE9] = Inr (0, 0, 255)"
  using single_byte_block [OF ieee_exact, of "[0xE9]"] ieee_exact by simp

section \<open>The grid layout and the image renderer\<close>

subsection \<open>The search loop computes the specification's candidates\<close>

lemma spec_rows_pos: "1 \<le> n \<Longrightarrow> 1 \<le> c \<Longrightarrow> 1 \<le> spec_rows n c"
  unfolding spec_rows_def by (simp add: ceiling_le_iff less_ceiling_iff)

lemma spec_rows_le:
  assumes "1 \<le> n" "1 \<le> c"
  shows "spec_rows n c \<le> n"
proof -
  have "real_of_int n / real_of_int c \<le> real_of_int n / 1"
    using assms by (intro divide_left_mono) simp_all
  then show ?thesis
    unfolding spec_rows_def by (simp add: ceiling_le_iff)
qed

lemma cover:
  assumes "1 \<le> c"
  shows "n \<le> c * spec_rows n c"
proof -
  have "real_of_int n / real_of_int c \<le> real_of_int (spec_rows n c)"
    unfolding spec_rows_def by (rule le_of_int_ceiling)
  then have "real_of_int n \<le> real_of_int (spec_rows n c) * real_of_int c"
    using assms by (simp add: pos_divide_le_eq)
  then have "real_of_int n \<le> real_of_int (c * spec_rows n c)"
    by (simp add: mult.commute)
  then show ?thesis by (simp only: of_int_le_iff)
qed

lemma small_canvas: "canvas_width \<le> 2 ^ 20" "canvas_height \<le> 2 ^ 20"
  "1 \<le> canvas_width" "1 \<le> canvas_height"
  by (simp_all add: canvas_width_def canvas_height_def)

lemma py_int_min_quotients:
  assumes "ieee fp" "1 \<le> a" "a \<le> 2 ^ 20" "1 \<le> b" "b \<le> 2 ^ 20"
    "1 \<le> c" "c \<le> 2 ^ 20" "1 \<le> d" "d \<le> 2 ^ 20"
  shows "py_int (min (fl fp (real_of_int a / real_of_int b)) (fl fp (real_of_int c / real_of_int d)))
     = \<lfloor>min (real_of_int a / real_of_int b) (real_of_int c / real_of_int d)\<rfloor>"
proof -
  let ?u = "fl fp (real_of_int a / real_of_int b)"
  let ?v = "fl fp (real_of_int c / real_of_int d)"
  have "0 \<le> a div b" "0 \<le> c div d"
    using assms(2,4,6,8) by (simp_all add: pos_imp_zdiv_nonneg_iff)
  then have "0 \<le> real_of_int (a div b)" "0 \<le> real_of_int (c div d)"
    by simp_all
  then have "0 \<le> ?u" "0 \<le> ?v"
    using fl_quotient_bounds(1)[OF assms(1-5)] fl_quotient_bounds(1)[OF assms(1,6-9)]
    by linarith+
  then have "py_int (min ?u ?v) = \<lfloor>min ?u ?v\<rfloor>"
    by (simp add: py_int_def)
  also have "\<dots> = min (a div b) (c div d)"
    by (simp only: floor_min floor_fl_quotient[OF assms(1-5)] floor_fl_quotient[OF assms(1,6-9)])
  also have "\<dots> = \<lfloor>min (real_of_int a / real_of_int b) (real_of_int c / real_of_int d)\<rfloor>"
    by (simp only: floor_min floor_divide_of_int_eq)
  finally show ?thesis .
qed

lemma grid_search_step:
  assumes "ieee fp" "1 \<le> n" "n \<le> 2 ^ 20" "1 \<le> c" "c \<le> n"
  shows "grid_search fp n (c # rest) best =
     (if spec_cell n c > max_square_size best
      then grid_search fp n rest
             \<lparr>best_cols = c, best_rows = spec_rows n c, max_square_size = spec_cell n c\<rparr>
      else grid_search fp n rest best)"
proof -
  have c20: "c \<le> 2 ^ 20" using assms(3,5) by simp
  have rows: "\<lceil>fl fp (real_of_int n / real_of_int c)\<rceil> = spec_rows n c"
    unfolding spec_rows_def by (rule ceiling_fl_quotient[OF assms(1-4) c20])
  have r1: "1 \<le> spec_rows n c" using assms(2,4) by (rule spec_rows_pos)
  have r20: "spec_rows n c \<le> 2 ^ 20" using spec_rows_le[OF assms(2,4)] assms(3) by simp
  have cell: "py_int (min (fl fp (real_of_int canvas_width / real_of_int c))
       (fl fp (real_of_int canvas_height / real_of_int (spec_rows n c)))) = spec_cell n c"
    unfolding spec_cell_def
    by (rule py_int_min_quotients[OF assms(1) small_canvas(3,1) assms(4) c20 small_canvas(4,2) r1 r20])
  have c0: "c \<noteq> 0" using assms(4) by simp
  have r0: "spec_rows n c \<noteq> 0" using r1 by simp
  show ?thesis
    using c0 r0 by (simp add: truediv_def Let_def rows cell)
qed

lemma grid_search_inv:
  assumes "ieee fp" "1 \<le> n" "n \<le> 2 ^ 20" "\<forall>c\<in>set cs. 1 \<le> c \<and> c \<le> n"
  shows "\<exists>g. grid_search fp n cs best = Inr g
          \<and> max_square_size best \<le> max_square_size g
          \<and> (\<forall>c\<in>set cs. spec_cell n c \<le> max_square_size g)
          \<and> (g = best \<or>
               (best_cols g \<in> set cs \<and> best_rows g = spec_rows n (best_cols g)
                \<and> max_square_size g = spec_cell n (best_cols g)))"
  using assms(4)
proof (induction cs arbitrary: best)
  case Nil
  then show ?case by simp
next
  case (Cons c cs)
  have c1: "1 \<le> c" "c \<le> n" and rest: "\<forall>c\<in>set cs. 1 \<le> c \<and> c \<le> n"
    using Cons.prems by simp_all
  note step = grid_search_step[OF assms(1-3) c1]
  show ?case
  proof (cases "spec_cell n c > max_square_size best")
    case True
    let ?b = "\<lparr>best_cols = c, best_rows = spec_rows n c, max_square_size = spec_cell n c\<rparr>"
    from Cons.IH[OF rest, of ?b] obtain g where g:
      "grid_search fp n cs ?b = Inr g" "max_square_size ?b \<le> max_square_size g"
      "\<forall>c\<in>set cs. spec_cell n c \<le> max_square_size g"
      "g = ?b \<or> (best_cols g \<in> set cs \<and> best_rows g = spec_rows n (best_cols g)
                \<and> max_square_size g = spec_cell n (best_cols g))"
      by blast
    have "grid_search fp n (c # cs) best = Inr g"
      using True g(1) by (simp del: grid_search.simps add: step)
    moreover have "max_square_size best \<le> max_square_size g"
      using True g(2) by simp
    moreover have "\<forall>d\<in>set (c # cs). spec_cell n d \<le> max_square_size g"
      using g(2,3) by simp
    moreover have "g = best \<or> (best_cols g \<in> set (c # cs)
        \<and> best_rows g = spec_rows n (best_cols g)
        \<and> max_square_size g = spec_cell n (best_cols g))"
      using g(4) by auto
    ultimately show ?thesis by blast
  next
    case False
    from Cons.IH[OF rest, of best] obtain g where g:
      "grid_search fp n cs best = Inr g" "max_square_size best \<le> max_square_size g"
      "\<forall>c\<in>set cs. spec_cell n c \<le> max_square_size g"
      "g = best \<or> (best_cols g \<in> set cs \<and> best_rows g = spec_rows n (best_cols g)
                \<and> max_square_size g = spec_cell n (best_cols g))"
      by blast
    have "grid_search fp n (c # cs) best = Inr g"
      using False g(1) by (simp del: grid_search.simps add: step)
    moreover have "\<forall>d\<in>set (c # cs). spec_cell n d \<le> max_square_size g"
      using g(2,3) False by simp
    moreover have "g = best \<or> (best_cols g \<in> set (c # cs)
        \<and> best_rows g = spec_rows n (best_cols g)
        \<and> max_square_size g = spec_cell n (best_cols g))"
      using g(4) by auto
    ultimately show ?thesis using g(2) by blast
  qed
qed

lemma fits:
  assumes "1 \<le> n" "n \<le> canvas_width * canvas_height"
  shows "\<exists>c\<in>{1..n}. 1 \<le> spec_cell n c"
proof (cases "n \<le> 400")
  case True
  have "spec_rows n n = 1" using assms(1) by (simp add: spec_rows_def)
  then have "1 \<le> spec_cell n n"
    using assms(1) True by (simp add: spec_cell_def canvas_width_def canvas_height_def le_floor_iff)
  then show ?thesis using assms(1) by auto
next
  case False
  have "real_of_int n / 400 \<le> 800"
    using assms(2) by (simp add: canvas_width_def canvas_height_def)
  then have "spec_rows n 400 \<le> 800"
    by (simp add: spec_rows_def ceiling_le_iff)
  moreover have "1 \<le> spec_rows n 400" using assms(1) by (simp add: spec_rows_pos)
  ultimately have "1 \<le> spec_cell n 400"
    by (simp add: spec_cell_def canvas_width_def canvas_height_def le_floor_iff)
  then show ?thesis using False by auto
qed

lemma vertical_square_size:
  assumes "ieee fp" "1 \<le> n" "n \<le> 2 ^ 20"
  shows "py_int (min (real_of_int canvas_width)
      (fl fp (real_of_int canvas_height / real_of_int n))) = spec_vertical n"
proof -
  let ?h = "fl fp (real_of_int canvas_height / real_of_int n)"
  have "0 \<le> canvas_height div n"
    using assms(2) by (simp add: pos_imp_zdiv_nonneg_iff canvas_height_def)
  then have "0 \<le> real_of_int (canvas_height div n)" by simp
  then have "0 \<le> ?h"
    using fl_quotient_bounds(1)[OF assms(1) small_canvas(4,2) assms(2,3)] by linarith
  then have "0 \<le> min (real_of_int canvas_width) ?h"
    by (simp add: canvas_width_def)
  then have "py_int (min (real_of_int canvas_width) ?h) = \<lfloor>min (real_of_int canvas_width) ?h\<rfloor>"
    by (simp add: py_int_def)
  also have "\<dots> = min canvas_width (canvas_height div n)"
    by (simp only: floor_min floor_of_int floor_fl_quotient[OF assms(1) small_canvas(4,2) assms(2,3)])
  also have "\<dots> = spec_vertical n"
    unfolding spec_vertical_def by (simp only: floor_min floor_of_int floor_divide_of_int_eq)
  finally show ?thesis .
qed

lemma grid_layout_cases:
  assumes "ieee fp" "1 \<le> n" "n \<le> 2 ^ 20"
  shows "grid_layout fp n pixel_size =
     (if spec_vertical n \<ge> pixel_size
      then Inr \<lparr>best_cols = 1, best_rows = n, max_square_size = spec_vertical n\<rparr>
      else grid_search fp n [1..n] \<lparr>best_cols = 1, best_rows = 1, max_square_size = 0\<rparr>)"
  using assms(2)
  by (simp add: grid_layout_def truediv_def Let_def vertical_square_size[OF assms])

text \<open>The search raises nothing, whatever the number of blocks.\<close>

lemma rows_nonzero:
  assumes "ieee fp" "1 \<le> c" "c \<le> n"
  shows "\<lceil>fl fp (real_of_int n / real_of_int c)\<rceil> \<noteq> 0"
proof -
  have "1 \<le> real_of_int n / real_of_int c"
    using assms(2,3) by simp
  from fl_mono[OF assms(1) this] have "1 \<le> fl fp (real_of_int n / real_of_int c)"
    using fl_consts(2)[OF assms(1)] by simp
  then have "0 < fl fp (real_of_int n / real_of_int c)"
    by linarith
  then have "0 < \<lceil>fl fp (real_of_int n / real_of_int c)\<rceil>"
    by (simp only: zero_less_ceiling)
  then show ?thesis by linarith
qed

lemma grid_search_total:
  assumes "ieee fp" "\<forall>c\<in>set cs. 1 \<le> c \<and> c \<le> n"
  shows "\<exists>g. grid_search fp n cs best = Inr g"
  using assms(2)
proof (induction cs arbitrary: best)
  case Nil
  then show ?case by simp
next
  case (Cons c cs)
  have c: "1 \<le> c" "c \<le> n" and rest: "\<forall>c\<in>set cs. 1 \<le> c \<and> c \<le> n"
    using Cons.prems by simp_all
  have c0: "c \<noteq> 0" using c(1) by simp
  show ?case
    using c0 rows_nonzero[OF assms(1) c] Cons.IH[OF rest]
    by (simp add: truediv_def Let_def)
qed

lemma grid_layout_total:
  assumes "ieee fp" "1 \<le> n"
  shows "\<exists>g. grid_layout fp n pixel_size = Inr g"
proof -
  have "\<forall>c\<in>set [1..n]. 1 \<le> c \<and> c \<le> n" by simp
  from grid_search_total[OF assms(1) this] assms(2) show ?thesis
    by (simp add: grid_layout_def truediv_def Let_def)
qed

lemma grid_layout_raises:
  assumes "ieee fp" "grid_layout fp n pixel_size = Inl err" "0 \<le> n"
  shows "n = 0 \<and> err = ZeroDivisionError"
proof (cases "n = 0")
  case True
  then show ?thesis using assms(2) by (simp add: grid_layout_def truediv_def)
next
  case False
  then have "1 \<le> n" using assms(3) by simp
  from grid_layout_total[OF assms(1) this, of pixel_size] assms(2) show ?thesis by auto
qed

lemma upto_1_3: "[1..3] = [1, 2, 3::int]"
  by (simp add: upto.simps)

lemma grid_layout_3_500:
  "grid_layout exact 3 500 = Inr \<lparr>best_cols = 1, best_rows = 3, max_square_size = 266\<rparr>"
  by (simp add: grid_layout_def truediv_def py_int_def canvas_width_def canvas_height_def
      upto_1_3 exact_def)

lemma grid_layout_801_0:
  assumes "ieee fp"
  shows "grid_layout fp 801 0 = Inr \<lparr>best_cols = 1, best_rows = 801, max_square_size = 0\<rparr>"
proof -
  have "spec_vertical 801 = 0"
    by (simp add: spec_vertical_def canvas_width_def canvas_height_def)
  then show ?thesis
    by (simp add: grid_layout_cases[OF assms])
qed

lemma grid_layout_geometry:
  assumes "ieee fp" "0 < n" "n \<le> canvas_width * canvas_height"
  shows "\<exists>g. grid_layout fp n pixel_size = Inr g
      \<and> n \<le> best_cols g * best_rows g
      \<and> (1 \<le> pixel_size \<or> n \<le> 800 \<longrightarrow> 1 \<le> max_square_size g)
      \<and> (spec_vertical n < pixel_size \<longrightarrow>
           best_cols g \<in> {1..n} \<and> best_rows g = spec_rows n (best_cols g)
           \<and> max_square_size g = spec_cell n (best_cols g)
           \<and> (\<forall>c\<in>{1..n}. spec_cell n c \<le> max_square_size g)
           \<and> 1 \<le> max_square_size g)"
proof -
  have n1: "1 \<le> n" using assms(2) by simp
  have n20: "n \<le> 2 ^ 20" using assms(3) by (simp add: canvas_width_def canvas_height_def)
  note cases = grid_layout_cases[OF assms(1) n1 n20]
  show ?thesis
  proof (cases "spec_vertical n \<ge> pixel_size")
    case True
    let ?g = "\<lparr>best_cols = 1, best_rows = n, max_square_size = spec_vertical n\<rparr>"
    have g: "grid_layout fp n pixel_size = Inr ?g"
      using True by (simp add: cases)
    have small: "1 \<le> spec_vertical n" if "n \<le> 800"
      using that n1
      by (simp add: spec_vertical_def canvas_width_def canvas_height_def le_floor_iff)
    have "1 \<le> pixel_size \<or> n \<le> 800 \<longrightarrow> 1 \<le> max_square_size ?g"
      using True small by auto
    then show ?thesis
      using g True by simp
  next
    case False
    let ?b = "\<lparr>best_cols = 1, best_rows = 1, max_square_size = 0\<rparr>"
    have "\<forall>c\<in>set [1..n]. 1 \<le> c \<and> c \<le> n" by simp
    from grid_search_inv[OF assms(1) n1 n20 this, of ?b] obtain g where g:
      "grid_search fp n [1..n] ?b = Inr g"
      "\<forall>c\<in>set [1..n]. spec_cell n c \<le> max_square_size g"
      "g = ?b \<or> (best_cols g \<in> set [1..n] \<and> best_rows g = spec_rows n (best_cols g)
                  \<and> max_square_size g = spec_cell n (best_cols g))"
      by blast
    have gl: "grid_layout fp n pixel_size = Inr g"
      using False g(1) by (simp add: cases)
    obtain c where c: "c \<in> {1..n}" "1 \<le> spec_cell n c"
      using fits[OF n1 assms(3)] by blast
    have "spec_cell n c \<le> max_square_size g"
      using g(2) c(1) by simp
    then have size: "1 \<le> max_square_size g"
      using c(2) by linarith
    then have "g \<noteq> ?b" by auto
    with g(3) have best: "best_cols g \<in> {1..n}" "best_rows g = spec_rows n (best_cols g)"
      "max_square_size g = spec_cell n (best_cols g)"
      by simp_all
    have "n \<le> best_cols g * best_rows g"
      using cover[of "best_cols g" n] best(1,2) by simp
    then show ?thesis
      using gl size best g(2) by simp
  qed
qed

lemma chunks_empty: "chunks bs [] = []"
  by (subst chunks.simps) simp

subsection \<open>Claims about the layout and the renderer\<close>

text \<open>
  C1. With no blocks (an empty colour sequence) the renderer is claimed not to fail and
  to produce an empty canvas. The code does fail when Pillow is present: the first
  statement after the canvas size divides \<^verbatim>\<open>canvas_height / n\<close> with \<open>n = 0\<close>, which raises
  \<^verbatim>\<open>ZeroDivisionError\<close> before any canvas exists. An empty input file gives exactly
  this call, since it has no blocks.
\<close>

theorem create_image_empty_raises:
  "color_list fp [] 16 = Inr []
   \<and> create_image fp (Some pil) [] pixel_size output_file w = Inl ZeroDivisionError"
  by (simp add: color_list_def blocks_def chunks_empty create_image_def grid_layout_def truediv_def)

text \<open>
  C3, as stated: for every \<open>n > 0\<close> with \<open>n \<le> 400 * 800\<close> the chosen geometry has
  \<open>cols * rows \<ge> n\<close> and a cell of at least 1. This fails when the minimum cell size
  \<open>pixel_size\<close> is 0: with 801 blocks the single column has cell
  \<open>floor(min(400, 800 / 801)) = 0\<close>, which meets the minimum, and is chosen. No
  floating-point arithmetic that satisfies \<open>ieee\<close> makes the claim true.
\<close>

theorem grid_layout_cell_counterexample:
  "\<not> (\<exists>fp. ieee fp \<and> (\<forall>n pixel_size. 0 < n \<and> n \<le> canvas_width * canvas_height \<longrightarrow>
    (\<exists>g. grid_layout fp n pixel_size = Inr g \<and> n \<le> best_cols g * best_rows g
       \<and> 1 \<le> max_square_size g)))"
proof
  assume "\<exists>fp. ieee fp \<and> (\<forall>n pixel_size. 0 < n \<and> n \<le> canvas_width * canvas_height \<longrightarrow>
    (\<exists>g. grid_layout fp n pixel_size = Inr g \<and> n \<le> best_cols g * best_rows g
       \<and> 1 \<le> max_square_size g))"
  then obtain fp where fp: "ieee fp"
    and a: "\<forall>n pixel_size. 0 < n \<and> n \<le> canvas_width * canvas_height \<longrightarrow>
    (\<exists>g. grid_layout fp n pixel_size = Inr g \<and> n \<le> best_cols g * best_rows g
       \<and> 1 \<le> max_square_size g)"
    by blast
  have "0 < (801::int) \<and> 801 \<le> canvas_width * canvas_height"
    by (simp add: canvas_width_def canvas_height_def)
  with a have "\<exists>g. grid_layout fp 801 0 = Inr g \<and> 801 \<le> best_cols g * best_rows g
      \<and> 1 \<le> max_square_size g"
    by blast
  then show False by (simp add: grid_layout_801_0[OF fp])
qed

text \<open>
  C3, amended: for every \<open>n > 0\<close> with \<open>n \<le> 400 * 800\<close> and every \<open>pixel_size\<close> the
  layout returns a geometry with \<open>cols * rows \<ge> n\<close>; its cell is at least 1 when
  \<open>pixel_size \<ge> 1\<close> (what \<^verbatim>\<open>main\<close> passes) or \<open>n \<le> 800\<close>. In the general case, when
  the single column's cell is below \<open>pixel_size\<close>, the search over every \<open>cols\<close> from 1
  to \<open>n\<close> returns a column count in that range with \<open>rows = ceil(n / cols)\<close>, the cell is
  that column count's candidate \<open>floor(min(400 / cols, 800 / rows))\<close>, no candidate is
  larger, and the cell is at least 1.
\<close>

theorem grid_layout_fits:
  assumes "ieee fp" "0 < n" "n \<le> canvas_width * canvas_height"
  shows "\<exists>g. grid_layout fp n pixel_size = Inr g
      \<and> n \<le> best_cols g * best_rows g
      \<and> (1 \<le> pixel_size \<or> n \<le> 800 \<longrightarrow> 1 \<le> max_square_size g)
      \<and> (spec_vertical n < pixel_size \<longrightarrow>
           best_cols g \<in> {1..n} \<and> best_rows g = spec_rows n (best_cols g)
           \<and> max_square_size g = spec_cell n (best_cols g)
           \<and> (\<forall>c\<in>{1..n}. spec_cell n c \<le> max_square_size g)
           \<and> 1 \<le> max_square_size g)"
  using assms by (rule grid_layout_geometry)

theorem grid_layout_fits_witness:
  "ieee exact \<and> 0 < (3::int) \<and> 3 \<le> canvas_width * canvas_height
   \<and> grid_layout exact 3 500 = Inr \<lparr>best_cols = 1, best_rows = 3, max_square_size = 266\<rparr>
   \<and> (\<exists>g. grid_layout exact 3 500 = Inr g \<and> 3 \<le> best_cols g * best_rows g
        \<and> 1 \<le> max_square_size g \<and> max_square_size g = spec_cell 3 (best_cols g))"
proof -
  have h: "0 < (3::int)" "3 \<le> canvas_width * canvas_height"
    by (simp_all add: canvas_width_def canvas_height_def)
  have v: "spec_vertical 3 < 500"
    by (simp add: spec_vertical_def canvas_width_def canvas_height_def)
  show ?thesis
    using grid_layout_fits[OF ieee_exact h, of 500] h v grid_layout_3_500 ieee_exact by auto
qed

lemma grid_search_no_improvement:
  assumes "ieee fp" "1 \<le> n" "n \<le> 2 ^ 20"
    "\<forall>c\<in>set cs. 1 \<le> c \<and> c \<le> n \<and> spec_cell n c \<le> max_square_size best"
  shows "grid_search fp n cs best = Inr best"
  using assms(4)
proof (induction cs)
  case Nil
  then show ?case by simp
next
  case (Cons c cs)
  have c: "1 \<le> c" "c \<le> n" "\<not> spec_cell n c > max_square_size best"
    using Cons.prems by auto
  have "grid_search fp n (c # cs) best = grid_search fp n cs best"
    using c(3) by (simp del: grid_search.simps add: grid_search_step[OF assms(1-3) c(1,2)])
  then show ?case using Cons by simp
qed

lemma spec_cell_div:
  "spec_cell n c = min (canvas_width div c) (canvas_height div spec_rows n c)"
  unfolding spec_cell_def by (simp only: floor_min floor_divide_of_int_eq)

lemma spec_cell_too_many:
  assumes "canvas_width * canvas_height < n" "1 \<le> c"
  shows "spec_cell n c \<le> 0"
proof (cases "c \<le> 400")
  case True
  have "real_of_int n > 320000"
    using assms(1) by (simp add: canvas_width_def canvas_height_def)
  moreover have "0 < real_of_int c" "real_of_int c \<le> 400"
    using assms(2) True by simp_all
  ultimately have "800 * real_of_int c < real_of_int n"
    by linarith
  then have "800 < real_of_int n / real_of_int c"
    using \<open>0 < real_of_int c\<close> by (simp add: pos_less_divide_eq)
  then have "800 < spec_rows n c"
    unfolding spec_rows_def by (simp add: less_ceiling_iff)
  then have "canvas_height div spec_rows n c = 0"
    by (simp add: canvas_height_def div_pos_pos_trivial)
  then show ?thesis by (simp add: spec_cell_div)
next
  case False
  then have "canvas_width div c = 0"
    by (simp add: canvas_width_def div_pos_pos_trivial)
  moreover have "0 \<le> canvas_height div spec_rows n c \<or> canvas_height div spec_rows n c \<le> 0"
    by linarith
  ultimately show ?thesis by (auto simp: spec_cell_div min_def)
qed

lemma grid_layout_320001:
  assumes "ieee fp"
  shows "grid_layout fp 320001 1 = Inr \<lparr>best_cols = 1, best_rows = 1, max_square_size = 0\<rparr>"
proof -
  let ?b = "\<lparr>best_cols = 1, best_rows = 1, max_square_size = 0\<rparr>"
  have v: "spec_vertical 320001 = 0"
    by (simp add: spec_vertical_def canvas_width_def canvas_height_def)
  have "\<forall>c\<in>set [1..320001]. 1 \<le> c \<and> c \<le> 320001 \<and> spec_cell 320001 c \<le> max_square_size ?b"
    using spec_cell_too_many[of 320001] by (simp add: canvas_width_def canvas_height_def)
  then have "grid_search fp 320001 [1..320001] ?b = Inr ?b"
    by (intro grid_search_no_improvement[OF assms]) simp_all
  then show ?thesis
    using v by (simp add: grid_layout_cases[OF assms])
qed

lemma draw_squares_positive_cell:
  assumes "1 \<le> max_square_size g"
  shows "\<exists>img'. draw_squares rejects_inverted g i colors img = Inr img'"
proof (induction colors arbitrary: i img)
  case Nil
  then show ?case by simp
next
  case (Cons col colors)
  have "rejects_inverted (fst (square g i col)) col = None"
    using assms by (simp add: square_def Let_def rejects_inverted_def)
  then show ?case using Cons by simp
qed

lemma draw_squares_zero_cell:
  assumes "max_square_size g \<le> 0"
  shows "draw_squares rejects_inverted g i (col # colors) img = Inl ValueError"
proof -
  have "rejects_inverted (fst (square g i col)) col = Some ValueError"
    using assms by (simp add: square_def Let_def rejects_inverted_def)
  then show ?thesis by simp
qed

lemma first_box_320001:
  "fst (square \<lparr>best_cols = 1, best_rows = 1, max_square_size = 0\<rparr> 0 col) = (200, 400, 199, 399)"
  by (simp add: square_def Let_def left_margin_def top_margin_def canvas_width_def canvas_height_def)

lemma create_image_320001:
  assumes "ieee fp" "length colors = 320001" "new_image pil = None"
    "rectangle pil = rejects_inverted"
  shows "create_image fp (Some pil) colors 1 output_file w = Inl ValueError"
proof -
  obtain col rest where colors: "colors = col # rest"
    using assms(2) by (cases colors) simp_all
  have "draw_squares (rectangle pil) \<lparr>best_cols = 1, best_rows = 1, max_square_size = 0\<rparr> 0 colors []
      = Inl ValueError"
    unfolding colors assms(4) by (rule draw_squares_zero_cell) simp
  then show ?thesis
    using grid_layout_320001[OF assms(1)] assms(2,3) by (simp add: create_image_def)
qed

lemma grid_layout_1_1:
  "grid_layout exact 1 1 = Inr \<lparr>best_cols = 1, best_rows = 1, max_square_size = 400\<rparr>"
  by (simp add: grid_layout_def truediv_def py_int_def canvas_width_def canvas_height_def fl_exact)

lemma draw_one_square:
  "draw_squares rejects_inverted \<lparr>best_cols = 1, best_rows = 1, max_square_size = 400\<rparr> 0
     [(0, 0, 255)] [] = Inr [((0, 200, 399, 599), (0, 0, 255))]"
  by (simp add: square_def Let_def left_margin_def top_margin_def canvas_width_def
      canvas_height_def rejects_inverted_def)

text \<open>
  C7. A failure to persist the image never leaves the renderer as an exception. When
  Pillow is absent the renderer prints its notice and returns. When \<^verbatim>\<open>img.save\<close> is
  reached and raises, the renderer prints the error and returns. In both cases the lines
  printed before are kept and one line is added. The save is reached whenever there is
  at least one block and at most \<open>400 * 800\<close> of them, the minimum cell size is at least
  1, the canvas is created and \<^verbatim>\<open>draw.rectangle\<close> raises on inverted boxes only. An
  exception that does leave the renderer was raised by the layout, by the creation of the
  canvas or by \<^verbatim>\<open>draw.rectangle\<close>, all of which come before the save and outside the
  \<^verbatim>\<open>try\<close>: with more than \<open>400 * 800\<close> blocks the cell is 0, the first box is inverted
  and \<^verbatim>\<open>draw.rectangle\<close> raises a \<^verbatim>\<open>ValueError\<close>.
\<close>

theorem save_failure_contained:
  assumes "ieee fp"
  shows "create_image fp None colors pixel_size output_file w =
     Inr (w\<lparr>stdout := stdout w @
       [''Pillow is not installed. Please install it (pip install Pillow) to create images.'']\<rparr>)
   \<and> (grid_layout fp (int (length colors)) pixel_size = Inr g \<and> new_image pil = None
        \<and> draw_squares (rectangle pil) g 0 colors [] = Inr img
        \<and> save pil output_file = Some e \<longrightarrow>
        create_image fp (Some pil) colors pixel_size output_file w =
          Inr (w\<lparr>stdout := stdout w @ [''Error saving image: '' @ e]\<rparr>))
   \<and> (colors \<noteq> [] \<and> int (length colors) \<le> canvas_width * canvas_height \<and> 1 \<le> pixel_size
        \<and> new_image pil = None \<and> rectangle pil = rejects_inverted
        \<and> save pil output_file = Some e \<longrightarrow>
        create_image fp (Some pil) colors pixel_size output_file w =
          Inr (w\<lparr>stdout := stdout w @ [''Error saving image: '' @ e]\<rparr>))
   \<and> (create_image fp (Some pil) colors pixel_size output_file w = Inl err \<longrightarrow>
        grid_layout fp (int (length colors)) pixel_size = Inl err
        \<or> (\<exists>g. grid_layout fp (int (length colors)) pixel_size = Inr g
              \<and> (new_image pil = Some err
                  \<or> new_image pil = None
                    \<and> draw_squares (rectangle pil) g 0 colors [] = Inl err)))"
proof -
  have a: "create_image fp None colors pixel_size output_file w =
     Inr (w\<lparr>stdout := stdout w @
       [''Pillow is not installed. Please install it (pip install Pillow) to create images.'']\<rparr>)"
    by (simp add: create_image_def)
  have b: "create_image fp (Some pil) colors pixel_size output_file w =
          Inr (w\<lparr>stdout := stdout w @ [''Error saving image: '' @ e]\<rparr>)"
    if "grid_layout fp (int (length colors)) pixel_size = Inr g" "new_image pil = None"
      "draw_squares (rectangle pil) g 0 colors [] = Inr img" "save pil output_file = Some e"
    for g img
    using that by (simp add: create_image_def)
  have c: "create_image fp (Some pil) colors pixel_size output_file w =
          Inr (w\<lparr>stdout := stdout w @ [''Error saving image: '' @ e]\<rparr>)"
    if h: "colors \<noteq> []" "int (length colors) \<le> canvas_width * canvas_height"
      "1 \<le> pixel_size" "rectangle pil = rejects_inverted" "save pil output_file = Some e"
      "new_image pil = None"
  proof -
    have "0 < int (length colors)" using h(1) by simp
    from grid_layout_geometry[OF assms this h(2), of pixel_size] h(3) obtain g'
      where g': "grid_layout fp (int (length colors)) pixel_size = Inr g'" "1 \<le> max_square_size g'"
      by auto
    obtain img' where "draw_squares (rectangle pil) g' 0 colors [] = Inr img'"
      unfolding h(4) using draw_squares_positive_cell[OF g'(2)] by blast
    with g'(1) h(5,6) show ?thesis by (simp add: create_image_def)
  qed
  have d: "grid_layout fp (int (length colors)) pixel_size = Inl err
        \<or> (\<exists>g. grid_layout fp (int (length colors)) pixel_size = Inr g
              \<and> (new_image pil = Some err
                  \<or> new_image pil = None
                    \<and> draw_squares (rectangle pil) g 0 colors [] = Inl err))"
    if "create_image fp (Some pil) colors pixel_size output_file w = Inl err"
    using that by (auto simp: create_image_def split: sum.splits option.splits)
  show ?thesis using a b c d by blast
qed

theorem save_failure_contained_witness:
  "ieee exact
   \<and> create_image exact None [(0, 0, 255)] 1 ''out.png'' \<lparr>stdout = [''00[0x0]''], disk = []\<rparr> =
     Inr \<lparr>stdout = [''00[0x0]'',
       ''Pillow is not installed. Please install it (pip install Pillow) to create images.''],
       disk = []\<rparr>
   \<and> grid_layout exact 1 1 = Inr \<lparr>best_cols = 1, best_rows = 1, max_square_size = 400\<rparr>
   \<and> draw_squares rejects_inverted \<lparr>best_cols = 1, best_rows = 1, max_square_size = 400\<rparr> 0
       [(0, 0, 255)] [] = Inr [((0, 200, 399, 599), (0, 0, 255))]
   \<and> create_image exact (Some \<lparr>new_image = None, rectangle = rejects_inverted, save = (\<lambda>p. Some ''disk full'')\<rparr>)
       [(0, 0, 255)] 1 ''out.png'' \<lparr>stdout = [''00[0x0]''], disk = []\<rparr> =
     Inr \<lparr>stdout = [''00[0x0]'', ''Error saving image: disk full''], disk = []\<rparr>
   \<and> create_image exact (Some \<lparr>new_image = None, rectangle = rejects_inverted, save = (\<lambda>p. Some ''disk full'')\<rparr>)
       (replicate 320001 (0, 0, 255)) 1 ''out.png'' \<lparr>stdout = [], disk = []\<rparr> = Inl ValueError
   \<and> grid_layout exact (int (length (replicate 320001 ((0, 0, 255) :: color)))) 1 \<noteq> Inl ValueError"
proof -
  let ?pil = "\<lparr>new_image = None, rectangle = rejects_inverted, save = (\<lambda>p. Some ''disk full'')\<rparr>"
  let ?w = "\<lparr>stdout = [''00[0x0]''], disk = []\<rparr>"
  let ?g = "\<lparr>best_cols = 1, best_rows = 1, max_square_size = 400\<rparr>"
  let ?many = "replicate 320001 ((0, 0, 255) :: color)"
  have one: "create_image exact None [(0, 0, 255)] 1 ''out.png'' ?w =
       Inr (?w\<lparr>stdout := stdout ?w @
         [''Pillow is not installed. Please install it (pip install Pillow) to create images.'']\<rparr>)"
    "create_image exact (Some ?pil) [(0, 0, 255)] 1 ''out.png'' ?w =
       Inr (?w\<lparr>stdout := stdout ?w @ [''Error saving image: '' @ ''disk full'']\<rparr>)"
    using save_failure_contained [OF ieee_exact, where colors = "[(0, 0, 255)]"
        and pixel_size = 1 and output_file = "''out.png''" and w = ?w and g = ?g and pil = ?pil
        and img = "[((0, 200, 399, 599), (0, 0, 255))]" and e = "''disk full''"]
      grid_layout_1_1 draw_one_square
    by simp_all
  have raised: "create_image exact (Some ?pil) ?many 1 ''out.png'' \<lparr>stdout = [], disk = []\<rparr>
      = Inl ValueError"
    by (rule create_image_320001[OF ieee_exact]) simp_all
  have layout: "grid_layout exact (int (length ?many)) 1 \<noteq> Inl ValueError"
    using save_failure_contained [OF ieee_exact, where colors = ?many
        and pixel_size = 1 and output_file = "''out.png''" and w = "\<lparr>stdout = [], disk = []\<rparr>"
        and pil = ?pil and err = ValueError] raised grid_layout_320001[OF ieee_exact]
    by simp
  show ?thesis
    using one raised layout grid_layout_1_1 draw_one_square ieee_exact by simp
qed

section \<open>The entropy of a block\<close>

subsection \<open>The frequency table\<close>

lemma freq_get_absent: "b \<notin> fst ` set freq \<Longrightarrow> freq_get freq b d = d"
  by (induction freq) auto

lemma freq_set_absent: "b \<notin> fst ` set freq \<Longrightarrow> freq_set freq b v = freq @ [(b, v)]"
  by (induction freq) auto

lemma bump_present:
  assumes "distinct (map fst freq)" "b \<in> fst ` set freq"
  shows "freq_set freq b (freq_get freq b 0 + 1) =
     map (\<lambda>(k, v). (k, if k = b then v + 1 else v)) freq"
  using assms
proof (induction freq)
  case Nil
  then show ?case by simp
next
  case (Cons kv freq)
  obtain k v where kv: "kv = (k, v)" by (cases kv)
  show ?case
  proof (cases "k = b")
    case True
    then have "b \<notin> fst ` set freq" using Cons.prems(1) kv by auto
    then have "map (\<lambda>(k, v). (k, if k = b then v + 1 else v)) freq = freq"
      by (induction freq) auto
    then show ?thesis using True kv by simp
  next
    case False
    then show ?thesis using Cons kv by auto
  qed
qed

lemma filter_removeAll: "filter P (removeAll b xs) = filter (\<lambda>k. P k \<and> k \<noteq> b) xs"
  by (induction xs) auto

lemma filter_removeAll_rejected: "\<not> P b \<Longrightarrow> filter P (removeAll b xs) = filter P xs"
  by (induction xs) auto

lemma count_bytes_char:
  assumes "distinct (map fst freq)"
  shows "count_bytes freq block =
     map (\<lambda>(k, v). (k, v + count_list block k)) freq
     @ map (\<lambda>k. (k, count_list block k)) (filter (\<lambda>k. k \<notin> fst ` set freq) (first_seen block))"
  using assms
proof (induction block arbitrary: freq)
  case Nil
  then show ?case by (simp add: case_prod_beta)
next
  case (Cons b block)
  show ?case
  proof (cases "b \<in> fst ` set freq")
    case True
    let ?freq' = "map (\<lambda>(k, v). (k, if k = b then v + 1 else v)) freq"
    have keys: "map fst ?freq' = map fst freq"
      by (simp add: case_prod_beta comp_def)
    have keys': "fst ` set ?freq' = fst ` set freq"
      using keys by (metis list.set_map)
    have d: "distinct (map fst ?freq')" using Cons.prems by (simp only: keys)
    have "count_bytes freq (b # block) = count_bytes ?freq' block"
      using bump_present[OF Cons.prems True] by simp
    also have "\<dots> = map (\<lambda>(k, v). (k, v + count_list block k)) ?freq'
        @ map (\<lambda>k. (k, count_list block k))
            (filter (\<lambda>k. k \<notin> fst ` set freq) (first_seen block))"
      using Cons.IH[OF d] keys' by simp
    also have "map (\<lambda>(k, v). (k, v + count_list block k)) ?freq'
        = map (\<lambda>(k, v). (k, v + count_list (b # block) k)) freq"
      by (simp add: case_prod_beta)
    also have "map (\<lambda>k. (k, count_list block k))
            (filter (\<lambda>k. k \<notin> fst ` set freq) (first_seen block))
        = map (\<lambda>k. (k, count_list (b # block) k))
            (filter (\<lambda>k. k \<notin> fst ` set freq) (first_seen (b # block)))"
    proof -
      have "filter (\<lambda>k. k \<notin> fst ` set freq) (first_seen (b # block))
          = filter (\<lambda>k. k \<notin> fst ` set freq) (removeAll b (first_seen block))"
        using True by simp
      also have "\<dots> = filter (\<lambda>k. k \<notin> fst ` set freq) (first_seen block)"
        using True by (intro filter_removeAll_rejected) simp
      finally have f: "filter (\<lambda>k. k \<notin> fst ` set freq) (first_seen (b # block))
          = filter (\<lambda>k. k \<notin> fst ` set freq) (first_seen block)" .
      show ?thesis
        unfolding f using True by (auto simp: map_eq_conv)
    qed
    finally show ?thesis .
  next
    case False
    let ?freq' = "freq @ [(b, 1)]"
    have d: "distinct (map fst ?freq')" using Cons.prems False by (auto simp: image_iff)
    have "count_bytes freq (b # block) = count_bytes ?freq' block"
      using freq_get_absent[OF False] freq_set_absent[OF False] by simp
    also have "\<dots> = map (\<lambda>(k, v). (k, v + count_list block k)) ?freq'
        @ map (\<lambda>k. (k, count_list block k))
            (filter (\<lambda>k. k \<notin> fst ` set ?freq') (first_seen block))"
      by (rule Cons.IH[OF d])
    also have "\<dots> = map (\<lambda>(k, v). (k, v + count_list block k)) freq
        @ (b, 1 + count_list block b)
        # map (\<lambda>k. (k, count_list block k))
            (filter (\<lambda>k. k \<notin> fst ` set freq \<and> k \<noteq> b) (first_seen block))"
      by (simp add: conj_commute)
    also have "map (\<lambda>(k, v). (k, v + count_list block k)) freq
        = map (\<lambda>(k, v). (k, v + count_list (b # block) k)) freq"
      using False by (auto simp: map_eq_conv image_iff)
    also have "(b, 1 + count_list block b)
        # map (\<lambda>k. (k, count_list block k))
            (filter (\<lambda>k. k \<notin> fst ` set freq \<and> k \<noteq> b) (first_seen block))
        = map (\<lambda>k. (k, count_list (b # block) k))
            (filter (\<lambda>k. k \<notin> fst ` set freq) (first_seen (b # block)))"
    proof -
      have "filter (\<lambda>k. k \<notin> fst ` set freq) (removeAll b (first_seen block))
          = filter (\<lambda>k. k \<notin> fst ` set freq \<and> k \<noteq> b) (first_seen block)"
        by (rule filter_removeAll)
      then show ?thesis using False by (auto simp: map_eq_conv)
    qed
    finally show ?thesis .
  qed
qed

lemma count_bytes_first_seen:
  "count_bytes [] block = map (\<lambda>k. (k, count_list block k)) (first_seen block)"
  using count_bytes_char[of "[]" block] by simp

lemma counts_first_seen:
  "map snd (count_bytes [] block) = map (count_list block) (first_seen block)"
  by (simp add: count_bytes_first_seen comp_def)

lemma set_first_seen: "set (first_seen block) = set block"
  by (induction block) auto

lemma distinct_first_seen: "distinct (first_seen block)"
  by (induction block) (auto simp: distinct_removeAll)

lemma count_list_mset: "count_list block k = count (mset block) k"
  by (induction block) auto

lemma count_list_pos: "k \<in> set block \<Longrightarrow> 0 < count_list block k"
  by (induction block) auto

lemma compute_entropy_counts:
  "compute_entropy fp block =
     (if block = [] then Inr 0
      else accumulate fp (length block) 0 (map (count_list block) (first_seen block)))"
  by (simp add: compute_entropy_def counts_first_seen)

subsection \<open>The entropy in exact arithmetic\<close>

lemma accumulate_exact:
  assumes "0 < n" "\<forall>c\<in>set cs. 0 < c"
  shows "accumulate exact n ent cs =
     Inr (ent - (\<Sum>c\<leftarrow>cs. (real c / real n) * log 2 (real c / real n)))"
  using assms(2)
proof (induction cs arbitrary: ent)
  case Nil
  then show ?case by simp
next
  case (Cons c cs)
  have c: "0 < c" and rest: "\<forall>c\<in>set cs. 0 < c" using Cons.prems by simp_all
  have p: "0 < real c / real n" using c assms(1) by simp
  have "accumulate exact n ent (c # cs) =
      accumulate exact n (ent - (real c / real n) * log 2 (real c / real n)) cs"
    using p assms(1)
    by (simp add: truediv_def math_log2_def fsub_def fmul_def exact_def)
  then show ?case
    using Cons.IH[OF rest] by (simp add: algebra_simps)
qed

lemma compute_entropy_exact:
  assumes "block \<noteq> []"
  shows "compute_entropy exact block =
     Inr (- (\<Sum>k\<in>set block. (real (count_list block k) / real (length block))
              * log 2 (real (count_list block k) / real (length block))))"
proof -
  have n: "0 < length block" using assms by simp
  have pos: "\<forall>c\<in>set (map (count_list block) (first_seen block)). 0 < c"
    by (auto simp: set_first_seen count_list_pos)
  have "(\<Sum>c\<leftarrow>map (count_list block) (first_seen block).
          (real c / real (length block)) * log 2 (real c / real (length block)))
      = (\<Sum>k\<in>set block. (real (count_list block k) / real (length block))
              * log 2 (real (count_list block k) / real (length block)))"
    using sum_list_distinct_conv_sum_set[OF distinct_first_seen, of _ block]
    by (simp add: comp_def set_first_seen)
  then show ?thesis
    using assms accumulate_exact[OF n pos, of 0] by (simp add: compute_entropy_counts)
qed

lemma compute_entropy_exact_mset:
  assumes "mset b = mset b'"
  shows "compute_entropy exact b = compute_entropy exact b'"
proof (cases "b = []")
  case True
  then have "b' = []" using assms by simp
  then show ?thesis using True by simp
next
  case False
  then have "b' \<noteq> []" using assms by auto
  moreover have "set b = set b'" using assms by (rule mset_eq_setD)
  moreover have "length b = length b'" using assms by (rule mset_eq_length)
  moreover have "count_list b k = count_list b' k" for k
    using assms by (simp add: count_list_mset)
  ultimately show ?thesis
    using False by (simp add: compute_entropy_exact)
qed

lemma compute_entropy_first_seen:
  assumes "mset b = mset b'" "first_seen b = first_seen b'"
  shows "compute_entropy fp b = compute_entropy fp b'"
proof -
  have "length b = length b'" using assms(1) by (rule mset_eq_length)
  moreover have "count_list b = count_list b'"
    using assms(1) by (simp add: count_list_mset fun_eq_iff)
  moreover have "b = [] \<longleftrightarrow> b' = []" using assms(1) by auto
  ultimately show ?thesis
    using assms(2) by (simp add: compute_entropy_counts)
qed

subsection \<open>Gibbs' inequality for the exact entropy\<close>







subsection \<open>The rounded entropy is computed without raising and is not negative\<close>




lemma log2_sign_exact: "log2_sign exact"
  by (simp add: log2_sign_def exact_def)

section \<open>Double precision\<close>

subsection \<open>Evaluating the double-precision rounding\<close>

lemma floor_log2:
  assumes "0 < x" "2 powr real_of_int e \<le> x" "x < 2 powr (real_of_int e + 1)"
  shows "\<lfloor>log 2 x\<rfloor> = e"
proof -
  have "log 2 (2 powr real_of_int e) \<le> log 2 x"
    using assms(1,2) by (simp del: log_powr_cancel)
  then have lo: "real_of_int e \<le> log 2 x" by simp
  have "log 2 x < log 2 (2 powr (real_of_int e + 1))"
    using assms(1,3) by (simp del: log_powr_cancel)
  then have hi: "log 2 x < real_of_int e + 1" by simp
  show ?thesis using lo hi by (simp add: floor_unique)
qed

lemma fl64_scaled:
  assumes "x \<noteq> 0" "2 powr real_of_int e \<le> \<bar>x\<bar>" "\<bar>x\<bar> < 2 powr (real_of_int e + 1)"
  shows "fl64 x =
     real_of_int (rne (x / 2 powr (real_of_int e - 52))) * 2 powr (real_of_int e - 52)"
proof -
  have "0 < \<bar>x\<bar>" using assms(1) by simp
  from floor_log2[OF this assms(2,3)] show ?thesis
    using assms(1) by (simp add: fl64_def Let_def)
qed

lemma powr_neg_nat: "2 powr (- real k) = 1 / 2 ^ k"
  by (simp add: powr_minus powr_realpow inverse_eq_divide)

lemma fl64_below_one:
  assumes "1 / 2 ^ Suc k \<le> \<bar>x\<bar>" "\<bar>x\<bar> < 1 / 2 ^ k"
  shows "fl64 x = real_of_int (rne (x * 2 ^ (k + 53))) / 2 ^ (k + 53)"
proof -
  let ?e = "- int (Suc k)"
  have x0: "x \<noteq> 0"
  proof
    assume "x = 0"
    then have "(1::real) / 2 ^ Suc k \<le> 0" using assms(1) by simp
    moreover have "(0::real) < 1 / 2 ^ Suc k" by simp
    ultimately show False by linarith
  qed
  have e1: "2 powr real_of_int ?e = 1 / 2 ^ Suc k"
    using powr_neg_nat[of "Suc k"] by simp
  have e2: "2 powr (real_of_int ?e + 1) = 1 / 2 ^ k"
    using powr_neg_nat[of k] by simp
  have e3: "2 powr (real_of_int ?e - 52) = 1 / 2 ^ (k + 53)"
    using powr_neg_nat[of "k + 53"] by (simp add: algebra_simps)
  have "fl64 x =
     real_of_int (rne (x / 2 powr (real_of_int ?e - 52))) * 2 powr (real_of_int ?e - 52)"
    by (rule fl64_scaled[OF x0]) (use assms in \<open>simp_all only: e1 e2\<close>)
  then show ?thesis
    by (simp only: e3) simp
qed

lemma fl64_0: "fl64 0 = 0"
  by (simp add: fl64_def)

lemma fl64_above_one:
  assumes "2 ^ k \<le> \<bar>x\<bar>" "\<bar>x\<bar> < 2 ^ Suc k" "k \<le> 52"
  shows "fl64 x = real_of_int (rne (x * 2 ^ (52 - k))) / 2 ^ (52 - k)"
proof -
  have x0: "x \<noteq> 0"
  proof
    assume "x = 0"
    then have "(2::real) ^ k \<le> 0" using assms(1) by simp
    moreover have "(0::real) < 2 ^ k" by simp
    ultimately show False by linarith
  qed
  have r: "real_of_int (int k) = real k" by simp
  have e1: "2 powr real_of_int (int k) = 2 ^ k"
    unfolding r by (rule powr_realpow) simp
  have s: "real k + 1 = real (Suc k)" by simp
  have "2 powr real (Suc k) = 2 ^ Suc k"
    by (rule powr_realpow) simp
  then have e2: "2 powr (real_of_int (int k) + 1) = 2 ^ Suc k"
    unfolding r s .
  have "real k - 52 = - real (52 - k)"
    using assms(3) by (simp add: of_nat_diff)
  then have e3: "2 powr (real_of_int (int k) - 52) = 1 / 2 ^ (52 - k)"
    unfolding r by (simp only: powr_neg_nat)
  have "fl64 x =
     real_of_int (rne (x / 2 powr (real_of_int (int k) - 52)))
       * 2 powr (real_of_int (int k) - 52)"
  proof (rule fl64_scaled[OF x0])
    show "2 powr real_of_int (int k) \<le> \<bar>x\<bar>" unfolding e1 by (rule assms(1))
    show "\<bar>x\<bar> < 2 powr (real_of_int (int k) + 1)" unfolding e2 by (rule assms(2))
  qed
  then have "fl64 x = real_of_int (rne (x / (1 / 2 ^ (52 - k)))) * (1 / 2 ^ (52 - k))"
    by (simp only: e3)
  then show ?thesis by simp
qed

subsection \<open>Rounding to the nearest integer, ties to even\<close>






subsection \<open>The double-precision rounding satisfies the assumptions\<close>


















subsection \<open>Two entropies computed in double precision\<close>

lemma log2_half: "log 2 (1 / 2) = - 1"
  by (simp add: log_divide)

lemma acc_step:
  assumes "fl64 (real c / real n) = p" "0 < p" "log2_64 p = l" "fl64 (p * l) = t"
    "fl64 (ent - t) = ent'" "n \<noteq> 0"
  shows "accumulate binary64 n ent (c # cs) = accumulate binary64 n ent' cs"
  using assms by (simp add: truediv_def math_log2_def fsub_def fmul_def binary64_def)

















lemma ha_p3: "fl64 (real 3 / real 6) = 1 / 2 ^ 1"
  using fl64_below_one[of 0 "1 / 2"] by (simp add: rne_def)

lemma ha_l3: "log2_64 (1 / 2 ^ 1) = - 1"
  using log2_half fl64_above_one[of 0 "- 1"] by (simp add: log2_64_def rne_def)

lemma ha_t3: "fl64 (1 / 2 ^ 1 * (- 1)) = - 1 / 2 ^ 1"
  using fl64_below_one[of 0 "1 / 2 ^ 1 * (- 1)"] by (simp add: rne_def)

lemma ha_pos3: "(0::real) < 1 / 2 ^ 1"
  by simp

lemma ha_e1: "fl64 (0 - (- 1 / 2 ^ 1)) = 1 / 2 ^ 1"
  using fl64_below_one[of 0 "0 - (- 1 / 2 ^ 1)"] by (simp add: rne_def)

lemma ha_p2: "fl64 (real 2 / real 6) = 6004799503160661 / 2 ^ 54"
  using fl64_below_one[of 1 "1 / 3"] by (simp add: rne_def)

lemma ha_l2: "log2_64 (6004799503160661 / 2 ^ 54) = - 7138036527644009 / 2 ^ 52"
  by (simp add: log2_64_def)

lemma ha_t2: "fl64 (6004799503160661 / 2 ^ 54 * (- 7138036527644009 / 2 ^ 52)) = - 4758691018429339 / 2 ^ 53"
  using fl64_below_one[of 0 "6004799503160661 / 2 ^ 54 * (- 7138036527644009 / 2 ^ 52)"] by (simp add: rne_def)

lemma ha_pos2: "(0::real) < 6004799503160661 / 2 ^ 54"
  by simp

lemma ha_e2: "fl64 (1 / 2 ^ 1 - (- 4758691018429339 / 2 ^ 53)) = 2315572661449959 / 2 ^ 51"
  using fl64_above_one[of 0 "1 / 2 ^ 1 - (- 4758691018429339 / 2 ^ 53)"] by (simp add: rne_def)

lemma ha_p1: "fl64 (real 1 / real 6) = 6004799503160661 / 2 ^ 55"
  using fl64_below_one[of 2 "1 / 6"] by (simp add: rne_def)

lemma ha_l1: "log2_64 (6004799503160661 / 2 ^ 55) = - 1455204519376813 / 2 ^ 49"
  by (simp add: log2_64_def)

lemma ha_t1: "fl64 (6004799503160661 / 2 ^ 55 * (- 1455204519376813 / 2 ^ 49)) = - 7761090770009669 / 2 ^ 54"
  using fl64_below_one[of 1 "6004799503160661 / 2 ^ 55 * (- 1455204519376813 / 2 ^ 49)"] by (simp add: rne_def)

lemma ha_pos1: "(0::real) < 6004799503160661 / 2 ^ 55"
  by simp

lemma ha_e3: "fl64 (2315572661449959 / 2 ^ 51 - (- 7761090770009669 / 2 ^ 54)) = 6571418015402335 / 2 ^ 52"
  using fl64_above_one[of 0 "2315572661449959 / 2 ^ 51 - (- 7761090770009669 / 2 ^ 54)"] by (simp add: rne_def)

lemma ha_run: "accumulate binary64 6 0 [3, 2, 1] = Inr (6571418015402335 / 2 ^ 52)"
proof -
  have "accumulate binary64 6 (0) [3, 2, 1] =
      accumulate binary64 6 (1 / 2 ^ 1) [2, 1]"
    by (rule acc_step[OF ha_p3 ha_pos3 ha_l3 ha_t3 ha_e1]) simp
  also have "\<dots> =
      accumulate binary64 6 (2315572661449959 / 2 ^ 51) [1]"
    by (rule acc_step[OF ha_p2 ha_pos2 ha_l2 ha_t2 ha_e2]) simp
  also have "\<dots> =
      accumulate binary64 6 (6571418015402335 / 2 ^ 52) []"
    by (rule acc_step[OF ha_p1 ha_pos1 ha_l1 ha_t1 ha_e3]) simp
  also have "\<dots> = Inr (6571418015402335 / 2 ^ 52)"
    by simp
  finally show ?thesis .
qed

lemma hb_p3: "fl64 (real 3 / real 6) = 1 / 2 ^ 1"
  using fl64_below_one[of 0 "1 / 2"] by (simp add: rne_def)

lemma hb_l3: "log2_64 (1 / 2 ^ 1) = - 1"
  using log2_half fl64_above_one[of 0 "- 1"] by (simp add: log2_64_def rne_def)

lemma hb_t3: "fl64 (1 / 2 ^ 1 * (- 1)) = - 1 / 2 ^ 1"
  using fl64_below_one[of 0 "1 / 2 ^ 1 * (- 1)"] by (simp add: rne_def)

lemma hb_pos3: "(0::real) < 1 / 2 ^ 1"
  by simp

lemma hb_e1: "fl64 (0 - (- 1 / 2 ^ 1)) = 1 / 2 ^ 1"
  using fl64_below_one[of 0 "0 - (- 1 / 2 ^ 1)"] by (simp add: rne_def)

lemma hb_p1: "fl64 (real 1 / real 6) = 6004799503160661 / 2 ^ 55"
  using fl64_below_one[of 2 "1 / 6"] by (simp add: rne_def)

lemma hb_l1: "log2_64 (6004799503160661 / 2 ^ 55) = - 1455204519376813 / 2 ^ 49"
  by (simp add: log2_64_def)

lemma hb_t1: "fl64 (6004799503160661 / 2 ^ 55 * (- 1455204519376813 / 2 ^ 49)) = - 7761090770009669 / 2 ^ 54"
  using fl64_below_one[of 1 "6004799503160661 / 2 ^ 55 * (- 1455204519376813 / 2 ^ 49)"] by (simp add: rne_def)

lemma hb_pos1: "(0::real) < 6004799503160661 / 2 ^ 55"
  by simp

lemma hb_e2: "fl64 (1 / 2 ^ 1 - (- 7761090770009669 / 2 ^ 54)) = 4192072506187665 / 2 ^ 52"
  using fl64_below_one[of 0 "1 / 2 ^ 1 - (- 7761090770009669 / 2 ^ 54)"] by (simp add: rne_def)

lemma hb_p2: "fl64 (real 2 / real 6) = 6004799503160661 / 2 ^ 54"
  using fl64_below_one[of 1 "1 / 3"] by (simp add: rne_def)

lemma hb_l2: "log2_64 (6004799503160661 / 2 ^ 54) = - 7138036527644009 / 2 ^ 52"
  by (simp add: log2_64_def)

lemma hb_t2: "fl64 (6004799503160661 / 2 ^ 54 * (- 7138036527644009 / 2 ^ 52)) = - 4758691018429339 / 2 ^ 53"
  using fl64_below_one[of 0 "6004799503160661 / 2 ^ 54 * (- 7138036527644009 / 2 ^ 52)"] by (simp add: rne_def)

lemma hb_pos2: "(0::real) < 6004799503160661 / 2 ^ 54"
  by simp

lemma hb_e3: "fl64 (4192072506187665 / 2 ^ 52 - (- 4758691018429339 / 2 ^ 53)) = 3285709007701167 / 2 ^ 51"
  using fl64_above_one[of 0 "4192072506187665 / 2 ^ 52 - (- 4758691018429339 / 2 ^ 53)"] by (simp add: rne_def)

lemma hb_run: "accumulate binary64 6 0 [3, 1, 2] = Inr (3285709007701167 / 2 ^ 51)"
proof -
  have "accumulate binary64 6 (0) [3, 1, 2] =
      accumulate binary64 6 (1 / 2 ^ 1) [1, 2]"
    by (rule acc_step[OF hb_p3 hb_pos3 hb_l3 hb_t3 hb_e1]) simp
  also have "\<dots> =
      accumulate binary64 6 (4192072506187665 / 2 ^ 52) [2]"
    by (rule acc_step[OF hb_p1 hb_pos1 hb_l1 hb_t1 hb_e2]) simp
  also have "\<dots> =
      accumulate binary64 6 (3285709007701167 / 2 ^ 51) []"
    by (rule acc_step[OF hb_p2 hb_pos2 hb_l2 hb_t2 hb_e3]) simp
  also have "\<dots> = Inr (3285709007701167 / 2 ^ 51)"
    by simp
  finally show ?thesis .
qed




lemma entropy_321:
  "compute_entropy binary64 [0, 0, 0, 1, 1, 2] = Inr (6571418015402335 / 2 ^ 52)"
proof -
  have c: "map (count_list [0, 0, 0, 1, 1, 2]) (first_seen ([0, 0, 0, 1, 1, 2] :: byte list)) = [3, 2, 1]"
    by simp
  have n: "length ([0, 0, 0, 1, 1, 2] :: byte list) = 6"
    by simp
  have e: "([0, 0, 0, 1, 1, 2] :: byte list) \<noteq> []"
    by simp
  show ?thesis
    by (simp only: compute_entropy_counts c n e if_False ha_run)
qed

lemma entropy_312:
  "compute_entropy binary64 [0, 0, 0, 2, 1, 1] = Inr (3285709007701167 / 2 ^ 51)"
proof -
  have c: "map (count_list [0, 0, 0, 2, 1, 1]) (first_seen ([0, 0, 0, 2, 1, 1] :: byte list)) = [3, 1, 2]"
    by simp
  have n: "length ([0, 0, 0, 2, 1, 1] :: byte list) = 6"
    by simp
  have e: "([0, 0, 0, 2, 1, 1] :: byte list) \<noteq> []"
    by simp
  show ?thesis
    by (simp only: compute_entropy_counts c n e if_False hb_run)
qed


subsection \<open>Claims about the entropy\<close>




text \<open>
  C9, as stated: the entropy of a block is the same for every reordering of its bytes.
  In double precision this fails: the terms are subtracted in the order in which the
  bytes first occur, and rounded subtraction depends on that order. The bytes
  0, 0, 0, 1, 1, 2 give \<^verbatim>\<open>1.4591479170272448\<close> and their reordering 0, 0, 0, 2, 1, 1
  gives \<^verbatim>\<open>1.4591479170272446\<close>.
\<close>

theorem entropy_permutation_counterexample:
  "\<not> (\<forall>b b'. mset b = mset b' \<longrightarrow> compute_entropy binary64 b = compute_entropy binary64 b')"
proof
  assume a: "\<forall>b b'. mset b = mset b' \<longrightarrow> compute_entropy binary64 b = compute_entropy binary64 b'"
  have "mset [0 :: byte, 0, 0, 1, 1, 2] = mset [0, 0, 0, 2, 1, 1]"
    by simp
  with a have "compute_entropy binary64 [0, 0, 0, 1, 1, 2] = compute_entropy binary64 [0, 0, 0, 2, 1, 1]"
    by blast
  then have "(6571418015402335 :: real) / 2 ^ 52 = 3285709007701167 / 2 ^ 51"
    by (simp add: entropy_321 entropy_312)
  then show False by simp
qed

text \<open>
  C9, amended: in exact arithmetic the entropy of a block is the same for every
  reordering of its bytes. In floating-point arithmetic (any rounding and logarithm) it
  is the same for every reordering that keeps the order in which the distinct bytes first
  occur.
\<close>

theorem entropy_reordering:
  assumes "mset b = mset b'"
  shows "compute_entropy exact b = compute_entropy exact b'
    \<and> (first_seen b = first_seen b' \<longrightarrow> compute_entropy fp b = compute_entropy fp b')"
  using compute_entropy_exact_mset[OF assms] compute_entropy_first_seen[OF assms] by simp

theorem entropy_reordering_witness:
  "mset [0 :: byte, 0, 0, 1, 1, 2] = mset [0, 1, 0, 2, 1, 0]
   \<and> first_seen [0 :: byte, 0, 0, 1, 1, 2] = first_seen [0, 1, 0, 2, 1, 0]
   \<and> compute_entropy binary64 [0, 1, 0, 2, 1, 0] = Inr (6571418015402335 / 2 ^ 52)
   \<and> compute_entropy exact [0, 0, 0, 1, 1, 2] = compute_entropy exact [0, 0, 0, 2, 1, 1]"
proof -
  have m: "mset [0 :: byte, 0, 0, 1, 1, 2] = mset [0, 1, 0, 2, 1, 0]"
    "mset [0 :: byte, 0, 0, 1, 1, 2] = mset [0, 0, 0, 2, 1, 1]"
    by simp_all
  have f: "first_seen [0 :: byte, 0, 0, 1, 1, 2] = first_seen [0, 1, 0, 2, 1, 0]"
    by simp
  show ?thesis
    using entropy_reordering [OF m(1), of binary64] entropy_reordering [OF m(2), of binary64]
      m(1) f entropy_321
    by simp
qed

end
